theory Spec2Isabelle
  imports Complex_Main "HOL-Library.Sublist"
begin

section \<open>Data model\<close>

text \<open>
  The exceptions the pipeline code can raise: the two configuration errors of the
  constructor, a failed \<^verbatim>\<open>assert\<close>, a dictionary lookup or set removal of a missing
  key, and an index into an empty tuple.
\<close>

datatype error = TypeError | ValueError | AssertionError | KeyError | IndexError

text \<open>
  The \<^verbatim>\<open>Network\<close> class is an external collaborator; the pipeline uses exactly these
  operations of it. Layer names are values of type \<open>'l\<close>; the \<^verbatim>\<open>None\<close> entries that
  \<^verbatim>\<open>prev_layers\<close> and \<^verbatim>\<open>next_layers\<close> use for the network input and output are \<open>None\<close>
  of \<open>'l option\<close> (layer names are non-empty strings, so a name is never falsy).
  \<^item> \<open>layers\<close>: the layer names in iteration order (\<^verbatim>\<open>for layer_name in self.network\<close>);
  \<^item> \<open>is_conv_layer l\<close>: \<^verbatim>\<open>isinstance(self.network[l], ConvLayer)\<close>;
  \<^item> \<open>prev_layers l\<close>: the first component of \<^verbatim>\<open>self.network.prev_layers(l)\<close>;
  \<^item> \<open>next_layers l\<close>: \<^verbatim>\<open>self.network.next_layers(l)\<close>;
  \<^item> \<open>first_layers\<close>: \<^verbatim>\<open>self.network.first_layers()\<close>.
\<close>

record 'l network =
  layers :: "'l list"
  is_conv_layer :: "'l \<Rightarrow> bool"
  prev_layers :: "'l \<Rightarrow> 'l option list"
  next_layers :: "'l \<Rightarrow> 'l option list"
  first_layers :: "'l list"

text \<open>
  The attributes of an \<^verbatim>\<open>InterLayerPipeline\<close> object. A DAG vertex is a tuple of layer
  names, a vertex index is a Python integer. The two adjacency dictionaries are created
  with every key of \<^verbatim>\<open>range(len(self.dag_vertex_list))\<close> and are read at such keys only,
  so they are total functions here; a Python set of vertex indices is the list of its
  elements, used through \<open>set\<close> only.
\<close>

record ('l, 'r) inter_layer_pipeline =
  network :: "'l network"
  batch_size :: int
  resource :: 'r
  max_util_drop :: real
  dag_vertex_list :: "'l list list"
  dag_vertex_dict :: "'l \<rightharpoonup> int"
  dag_prev_dict :: "int \<Rightarrow> int list"
  dag_next_dict :: "int \<Rightarrow> int list"
  seg_vertex_done :: "int set"

definition dag_input_vertex :: int where
  "dag_input_vertex = -1"

section \<open>The segment enumerator\<close>

text \<open>
  \<^verbatim>\<open>share_deps = not vseg or not frontier_prevs.isdisjoint(
      set.union(set(vseg), *[self.dag_prev_dict[i] for i in vseg]))\<close>
\<close>

definition share_deps :: "('l, 'r) inter_layer_pipeline \<Rightarrow> int list \<Rightarrow> int \<Rightarrow> bool" where
  "share_deps P vseg frontier \<longleftrightarrow>
     vseg = [] \<or>
     set (dag_prev_dict P frontier) \<inter> (set vseg \<union> (\<Union>i\<in>set vseg. set (dag_prev_dict P i))) \<noteq> {}"

text \<open>
  \<^verbatim>\<open>coupled_prevs = len(frontier_prevs) > 1 and not frontier_prevs.isdisjoint(vseg)\<close>
\<close>

definition coupled_prevs :: "('l, 'r) inter_layer_pipeline \<Rightarrow> int list \<Rightarrow> int \<Rightarrow> bool" where
  "coupled_prevs P vseg frontier \<longleftrightarrow>
     card (set (dag_prev_dict P frontier)) > 1 \<and> set (dag_prev_dict P frontier) \<inter> set vseg \<noteq> {}"

text \<open>
  The inner loop \<^verbatim>\<open>for idx in vseg\<close> of the rule 3 check, over the members still to be
  looked at. It ends in one of three ways: the \<^verbatim>\<open>else\<close> branch of the loop (the segment is
  valid), the \<^verbatim>\<open>break\<close> (more vertices are needed), or the failed \<^verbatim>\<open>assert\<close>.
\<close>

datatype rule3_result = Rule3_Valid | Rule3_Invalid | Rule3_Assert_Failed

fun check_rule3 ::
  "('l, 'r) inter_layer_pipeline \<Rightarrow> int list \<Rightarrow> int \<Rightarrow> int list \<Rightarrow> rule3_result" where
  "check_rule3 P vseg frontier [] = Rule3_Valid"
| "check_rule3 P vseg frontier (idx # rest) =
     (let nexts = dag_next_dict P idx in
      if \<not> (set nexts \<inter> set vseg = {} \<or> set nexts \<subseteq> set vseg) then
        (if Min (set nexts - set vseg) > frontier then Rule3_Invalid else Rule3_Assert_Failed)
      else check_rule3 P vseg frontier rest)"

text \<open>
  A generator is modelled by what it has produced when it stops: the list of the values
  it yielded, in order, and the exception that ended it, if any. \<^verbatim>\<open>_gen_vseg\<close> also
  updates \<^verbatim>\<open>self.seg_vertex_done\<close>, which is passed in and returned.

  \<open>gen_vseg_loop\<close> is the loop \<^verbatim>\<open>for frontier in range(vertex_idx, len(self.dag_vertex_list))\<close>
  from the iteration at \<open>frontier\<close> on, with the current value of \<^verbatim>\<open>vseg\<close>; \<open>gen_vseg\<close>
  is the whole method. \<^verbatim>\<open>not done\<close> holds for \<^verbatim>\<open>None\<close> and for the empty set alike.
\<close>

type_synonym vseg_result = "int list list \<times> int set \<times> error option"

function gen_vseg ::
    "('l, 'r) inter_layer_pipeline \<Rightarrow> int \<Rightarrow> int set \<Rightarrow> int set \<Rightarrow> vseg_result"
  and gen_vseg_loop ::
    "('l, 'r) inter_layer_pipeline \<Rightarrow> int set \<Rightarrow> int \<Rightarrow> int list \<Rightarrow> int set \<Rightarrow> vseg_result"
where
  "gen_vseg P vertex_idx done memo =
     (let memo0 = (if done = {} then {} else memo);
          done1 = (if dag_input_vertex \<notin> done then insert dag_input_vertex done else done)
      in case gen_vseg_loop P done1 vertex_idx [] memo0 of
           (ys, memo1, Some e) \<Rightarrow> (ys, memo1, Some e)
         | (ys, memo1, None) \<Rightarrow>
             if vertex_idx \<in> memo1 then (ys, memo1, Some AssertionError)
             else (ys, insert vertex_idx memo1, None))"
| "gen_vseg_loop P done frontier vseg memo =
     (if \<not> frontier < int (length (dag_vertex_list P)) then ([], memo, None)
      else if \<not> share_deps P vseg frontier \<or> coupled_prevs P vseg frontier then
        (if vseg = [] then ([], memo, Some AssertionError) else ([], memo, None))
      else
        let vseg' = vseg @ [frontier] in
        case check_rule3 P vseg' frontier vseg' of
          Rule3_Assert_Failed \<Rightarrow> ([], memo, Some AssertionError)
        | Rule3_Invalid \<Rightarrow> gen_vseg_loop P done (frontier + 1) vseg' memo
        | Rule3_Valid \<Rightarrow>
            if frontier + 1 \<in> memo then
              (case gen_vseg_loop P done (frontier + 1) vseg' memo of
                 (ys, memo', st) \<Rightarrow> (vseg' # ys, memo', st))
            else
              (case gen_vseg P (frontier + 1) (done \<union> set vseg') memo of
                 (ys1, memo1, Some e) \<Rightarrow> (vseg' # ys1, memo1, Some e)
               | (ys1, memo1, None) \<Rightarrow>
                   (case gen_vseg_loop P done (frontier + 1) vseg' memo1 of
                      (ys2, memo2, st) \<Rightarrow> (vseg' # ys1 @ ys2, memo2, st))))"
  by pat_completeness auto
termination
  by (relation "measure (\<lambda>x. case x of
        Inl (P, vertex_idx, done, memo) \<Rightarrow> 2 * nat (int (length (dag_vertex_list P)) - vertex_idx) + 2
      | Inr (P, done, frontier, vseg, memo) \<Rightarrow> 2 * nat (int (length (dag_vertex_list P)) - frontier) + 1)")
     auto


section \<open>The DAG builder\<close>

text \<open>
  The loop \<^verbatim>\<open>for idx in reversed(range(len(dag_vertex_set)))\<close> that looks for a vertex to
  merge \<^verbatim>\<open>layer_name\<close> into: \<open>merge_scan N layer_name vs n\<close> runs the iterations for
  \<open>idx = n - 1, \<dots>, 0\<close>. The first vertex that passes the test gets the layer appended
  (\<^verbatim>\<open>break\<close>); when the loop runs out, its \<^verbatim>\<open>else\<close> branch appends a new vertex.
  \<^verbatim>\<open>dag_vertex_set[idx][-1]\<close> raises on an empty tuple.
\<close>

fun merge_scan :: "'l network \<Rightarrow> 'l \<Rightarrow> 'l list list \<Rightarrow> nat \<Rightarrow> error + 'l list list" where
  "merge_scan N layer_name vs 0 = Inr (vs @ [[layer_name]])"
| "merge_scan N layer_name vs (Suc idx) =
     (if vs ! idx = [] then Inl IndexError
      else
        let vhead = butlast (vs ! idx);
            vtail = last (vs ! idx);
            prevs = set (prev_layers N layer_name)
        in if prevs \<inter> Some ` set vhead = {} \<and> Some vtail \<in> prevs
              \<and> length (next_layers N vtail) = 1
           then Inr (vs[idx := vs ! idx @ [layer_name]])
           else merge_scan N layer_name vs idx)"

text \<open>One iteration of \<^verbatim>\<open>for layer_name in self.network\<close> in \<^verbatim>\<open>_calc_sched_dag\<close>.\<close>

definition merge_layer :: "'l network \<Rightarrow> 'l \<Rightarrow> 'l list list \<Rightarrow> error + 'l list list" where
  "merge_layer N layer_name vs =
     (if is_conv_layer N layer_name then Inr (vs @ [[layer_name]])
      else if set (prev_layers N layer_name) = {} then Inl AssertionError
      else merge_scan N layer_name vs (length vs))"

text \<open>The whole loop, over the layers still to come.\<close>

fun merge_layers :: "'l network \<Rightarrow> 'l list \<Rightarrow> 'l list list \<Rightarrow> error + 'l list list" where
  "merge_layers N [] vs = Inr vs"
| "merge_layers N (layer_name # rest) vs =
     (case merge_layer N layer_name vs of
        Inl e \<Rightarrow> Inl e
      | Inr vs' \<Rightarrow> merge_layers N rest vs')"

section \<open>The topological sorter\<close>

text \<open>
  The three variables shared by \<^verbatim>\<open>_topological_order\<close> and its local function
  \<^verbatim>\<open>_dfs\<close>. \<^verbatim>\<open>unseen\<close> is a Python set that the code iterates over; it is the list of its
  elements here. The vertices are pairwise disjoint tuples, so at most one of them holds
  a given layer and the order of that iteration does not show in the result.
\<close>

record 'l dfs_state =
  visited :: "'l list list"
  unseen :: "'l list list"
  seen :: "'l list set"

text \<open>
  \<^verbatim>\<open>for l in vertex: for nl in self.network.next_layers(l):
      if nl and nl not in vertex and nl not in next_layers: next_layers.append(nl)\<close>
\<close>

definition dfs_next_layers :: "'l network \<Rightarrow> 'l list \<Rightarrow> 'l list" where
  "dfs_next_layers N vertex =
     fold (\<lambda>l acc. fold (\<lambda>nl acc. case nl of
                                   None \<Rightarrow> acc
                                 | Some n \<Rightarrow> if n \<notin> set vertex \<and> n \<notin> set acc then acc @ [n] else acc)
                         (next_layers N l) acc)
          vertex []"

text \<open>
  \<^verbatim>\<open>for nl in reversed(next_layers): for nv in unseen: if nl in nv: next_vertices.append(nv)\<close>
\<close>

definition dfs_next_vertices :: "'l list list \<Rightarrow> 'l list \<Rightarrow> 'l list list" where
  "dfs_next_vertices uns nls = concat (map (\<lambda>nl. filter (\<lambda>nv. nl \<in> set nv) uns) (rev nls))"

text \<open>
  \<open>dfs\<close> is \<^verbatim>\<open>_dfs\<close>; \<open>dfs_list\<close> is a loop \<^verbatim>\<open>for nv in \<dots>: _dfs(nv)\<close>, which the code has
  twice. \<^verbatim>\<open>seen.remove\<close> raises on a missing element.
\<close>

function dfs :: "'l network \<Rightarrow> 'l list \<Rightarrow> 'l dfs_state \<Rightarrow> error + 'l dfs_state"
  and dfs_list :: "'l network \<Rightarrow> 'l list list \<Rightarrow> 'l dfs_state \<Rightarrow> error + 'l dfs_state"
where
  "dfs N vertex st =
     (if vertex \<in> seen st \<or> vertex \<in> set (visited st) then Inl AssertionError
      else
        let st1 = st\<lparr>unseen := removeAll vertex (unseen st), seen := insert vertex (seen st)\<rparr>;
            next_vertices = dfs_next_vertices (unseen st1) (dfs_next_layers N vertex)
        in case dfs_list N next_vertices st1 of
             Inl e \<Rightarrow> Inl e
           | Inr st2 \<Rightarrow>
               if vertex \<notin> seen st2 then Inl KeyError
               else Inr (st2\<lparr>visited := visited st2 @ [vertex], seen := seen st2 - {vertex}\<rparr>))"
| "dfs_list N [] st = Inr st"
| "dfs_list N (nv # nvs) st =
     (case dfs N nv st of
        Inl e \<Rightarrow> Inl e
      | Inr st' \<Rightarrow> dfs_list N nvs st')"
  by pat_completeness auto


text \<open>
  Termination of the search. A call of \<open>dfs\<close> on a vertex that passes the assertion moves
  it into \<open>seen\<close>, and every vertex that is searched next comes out of \<open>unseen\<close>, so the
  vertices that can still be searched get fewer. The state that a call returns has lost
  nothing from \<open>visited\<close> and gained nothing in \<open>unseen\<close>.
\<close>

lemma dfs_partial_mono:
  "dfs_dfs_list_dom (Inl (N, v, st)) \<Longrightarrow> dfs N v st = Inr st' \<Longrightarrow>
     set (unseen st') \<subseteq> set (unseen st) \<and> seen st' = seen st \<and> set (visited st) \<subseteq> set (visited st')"
  "dfs_dfs_list_dom (Inr (N, vs, st)) \<Longrightarrow> dfs_list N vs st = Inr st' \<Longrightarrow>
     set (unseen st') \<subseteq> set (unseen st) \<and> seen st' = seen st \<and> set (visited st) \<subseteq> set (visited st')"
proof (induction N v st and N vs st arbitrary: st' and st' rule: dfs_dfs_list.pinduct)
  case (1 N vertex st)
  from "1.prems" "1.hyps" obtain st2 where
      nv: "vertex \<notin> seen st" "vertex \<notin> set (visited st)"
    and l: "dfs_list N (dfs_next_vertices (removeAll vertex (unseen st)) (dfs_next_layers N vertex))
              (st\<lparr>unseen := removeAll vertex (unseen st), seen := insert vertex (seen st)\<rparr>) = Inr st2"
    and r: "st' = st2\<lparr>visited := visited st2 @ [vertex], seen := seen st2 - {vertex}\<rparr>"
    by (auto simp: dfs.psimps Let_def split: if_splits sum.splits)
  have c: "\<not> (vertex \<in> seen st \<or> vertex \<in> set (visited st))" using nv by simp
  from "1.IH"[OF c refl refl] l
  have "set (unseen st2) \<subseteq> set (removeAll vertex (unseen st))" "seen st2 = insert vertex (seen st)"
       "set (visited st) \<subseteq> set (visited st2)"
    by auto
  with r nv show ?case by auto
next
  case (2 N st)
  then show ?case by (simp add: dfs_list.psimps)
next
  case (3 N nv nvs st)
  from "3.prems" "3.hyps" obtain st1 where
    a: "dfs N nv st = Inr st1" and b: "dfs_list N nvs st1 = Inr st'"
    by (auto simp: dfs_list.psimps split: sum.splits)
  from "3.IH"(1)[OF a] "3.IH"(2)[OF a b] show ?case by auto
qed

termination dfs
proof (relation "measures [\<lambda>x. case x of
          Inl (N, v, st) \<Rightarrow> card ((insert v (set (unseen st)) - seen st) - set (visited st))
        | Inr (N, vs, st) \<Rightarrow> card (((set vs \<union> set (unseen st)) - seen st) - set (visited st)),
        \<lambda>x. case x of Inl _ \<Rightarrow> 0 | Inr (N, vs, st) \<Rightarrow> Suc (length vs)]", goal_cases)
  case 1
  then show ?case by simp
next
  case (2 N vertex st x xa)
  have sub: "set xa \<subseteq> set (removeAll vertex (unseen st))"
    using 2 by (auto simp: dfs_next_vertices_def)
  have "((set xa \<union> set (unseen x)) - seen x) - set (visited x)
          \<subset> (insert vertex (set (unseen st)) - seen st) - set (visited st)"
    using 2 sub by auto
  then have "card (((set xa \<union> set (unseen x)) - seen x) - set (visited x))
          < card ((insert vertex (set (unseen st)) - seen st) - set (visited st))"
    by (intro psubset_card_mono) auto
  then show ?case by simp
next
  case (3 N nv nvs st)
  have "card ((insert nv (set (unseen st)) - seen st) - set (visited st))
          \<le> card (((set (nv # nvs) \<union> set (unseen st)) - seen st) - set (visited st))"
    by (intro card_mono) auto
  then show ?case by auto
next
  case (4 N nv nvs st st')
  from dfs_partial_mono(1)[OF 4(2) 4(1)]
  have "((set nvs \<union> set (unseen st')) - seen st') - set (visited st')
          \<subseteq> ((set (nv # nvs) \<union> set (unseen st)) - seen st) - set (visited st)"
    by auto
  then have "card (((set nvs \<union> set (unseen st')) - seen st') - set (visited st'))
          \<le> card (((set (nv # nvs) \<union> set (unseen st)) - seen st) - set (visited st))"
    by (intro card_mono) auto
  then show ?case by auto
qed

text \<open>
  \<^verbatim>\<open>_topological_order\<close>: the search starts from the vertices of the first layers, taken
  in reversed order, and the result is the reversed order of the visits.
\<close>

definition start_vertices :: "'l network \<Rightarrow> 'l list list \<Rightarrow> 'l list list" where
  "start_vertices N uns = concat (map (\<lambda>l. filter (\<lambda>v. l \<in> set v) uns) (rev (first_layers N)))"

definition topological_order :: "'l network \<Rightarrow> 'l list list \<Rightarrow> error + 'l list list" where
  "topological_order N dag_vertex_set =
     (let st0 = \<lparr>visited = [], unseen = remdups dag_vertex_set, seen = {}\<rparr>
      in case dfs_list N (start_vertices N (unseen st0)) st0 of
           Inl e \<Rightarrow> Inl e
         | Inr st \<Rightarrow>
             if unseen st \<noteq> [] then Inl AssertionError
             else if seen st \<noteq> {} then Inl AssertionError
             else Inr (rev (visited st)))"

section \<open>Vertex indices and adjacency\<close>

text \<open>
  \<^verbatim>\<open>for vidx, v in enumerate(self.dag_vertex_list): for layer_name in v:
      assert layer_name not in self.dag_vertex_dict
      self.dag_vertex_dict[layer_name] = vidx\<close>
  \<open>vertex_dict_layers\<close> is the inner loop, \<open>vertex_dict_vertices\<close> the outer one from
  index \<open>vidx\<close> on. The entry that the code then stores under the key \<^verbatim>\<open>-1\<close> is never
  read (every lookup is by a layer name) and is left out.
\<close>

fun vertex_dict_layers :: "int \<Rightarrow> 'l list \<Rightarrow> ('l \<rightharpoonup> int) \<Rightarrow> error + ('l \<rightharpoonup> int)" where
  "vertex_dict_layers vidx [] d = Inr d"
| "vertex_dict_layers vidx (layer_name # rest) d =
     (if d layer_name \<noteq> None then Inl AssertionError
      else vertex_dict_layers vidx rest (d(layer_name \<mapsto> vidx)))"

fun vertex_dict_vertices :: "int \<Rightarrow> 'l list list \<Rightarrow> ('l \<rightharpoonup> int) \<Rightarrow> error + ('l \<rightharpoonup> int)" where
  "vertex_dict_vertices vidx [] d = Inr d"
| "vertex_dict_vertices vidx (v # vs) d =
     (case vertex_dict_layers vidx v d of
        Inl e \<Rightarrow> Inl e
      | Inr d' \<Rightarrow> vertex_dict_vertices (vidx + 1) vs d')"

text \<open>
  The loop over \<^verbatim>\<open>prev_layers\<close> of one layer: \<^verbatim>\<open>pvidx = self.dag_vertex_dict[pl] if pl
  else self.dag_input_vertex\<close>, added to the set of \<open>vidx\<close> when it differs from \<open>vidx\<close>.
\<close>

fun add_prevs ::
  "('l \<rightharpoonup> int) \<Rightarrow> int \<Rightarrow> 'l option list \<Rightarrow> (int \<Rightarrow> int list) \<Rightarrow> error + (int \<Rightarrow> int list)" where
  "add_prevs d vidx [] prevd = Inr prevd"
| "add_prevs d vidx (None # rest) prevd =
     add_prevs d vidx rest
       (if dag_input_vertex \<noteq> vidx then prevd(vidx := List.insert dag_input_vertex (prevd vidx))
        else prevd)"
| "add_prevs d vidx (Some pl # rest) prevd =
     (case d pl of
        None \<Rightarrow> Inl KeyError
      | Some pvidx \<Rightarrow>
          add_prevs d vidx rest
            (if pvidx \<noteq> vidx then prevd(vidx := List.insert pvidx (prevd vidx)) else prevd))"

text \<open>
  The loop over \<^verbatim>\<open>next_layers\<close> of one layer: a \<^verbatim>\<open>None\<close> is skipped, the vertex of any other
  entry is added to the set of \<open>vidx\<close> when it differs from \<open>vidx\<close>.
\<close>

fun add_nexts ::
  "('l \<rightharpoonup> int) \<Rightarrow> int \<Rightarrow> 'l option list \<Rightarrow> (int \<Rightarrow> int list) \<Rightarrow> error + (int \<Rightarrow> int list)" where
  "add_nexts d vidx [] nextd = Inr nextd"
| "add_nexts d vidx (None # rest) nextd = add_nexts d vidx rest nextd"
| "add_nexts d vidx (Some nl # rest) nextd =
     (case d nl of
        None \<Rightarrow> Inl KeyError
      | Some nvidx \<Rightarrow>
          add_nexts d vidx rest
            (if nvidx \<noteq> vidx then nextd(vidx := List.insert nvidx (nextd vidx)) else nextd))"

text \<open>The second loop \<^verbatim>\<open>for layer_name in self.network\<close>, over the layers still to come.\<close>

fun adjacency ::
  "'l network \<Rightarrow> ('l \<rightharpoonup> int) \<Rightarrow> 'l list \<Rightarrow> (int \<Rightarrow> int list) \<times> (int \<Rightarrow> int list)
     \<Rightarrow> error + (int \<Rightarrow> int list) \<times> (int \<Rightarrow> int list)" where
  "adjacency N d [] (prevd, nextd) = Inr (prevd, nextd)"
| "adjacency N d (layer_name # rest) (prevd, nextd) =
     (case d layer_name of
        None \<Rightarrow> Inl KeyError
      | Some vidx \<Rightarrow>
          (case add_prevs d vidx (prev_layers N layer_name) prevd of
             Inl e \<Rightarrow> Inl e
           | Inr prevd' \<Rightarrow>
               (case add_nexts d vidx (next_layers N layer_name) nextd of
                  Inl e \<Rightarrow> Inl e
                | Inr nextd' \<Rightarrow> adjacency N d rest (prevd', nextd'))))"

text \<open>
  What \<^verbatim>\<open>_calc_sched_dag\<close> initialises: \<^verbatim>\<open>dag_vertex_list\<close>, \<^verbatim>\<open>dag_vertex_dict\<close>,
  \<^verbatim>\<open>dag_prev_dict\<close> and \<^verbatim>\<open>dag_next_dict\<close>. The last step gives the input vertex the
  vertices that have it as a previous vertex.
\<close>

definition calc_sched_dag ::
  "'l network \<Rightarrow> error + 'l list list \<times> ('l \<rightharpoonup> int) \<times> (int \<Rightarrow> int list) \<times> (int \<Rightarrow> int list)" where
  "calc_sched_dag N =
     (case merge_layers N (layers N) [] of
        Inl e \<Rightarrow> Inl e
      | Inr dag_vertex_set \<Rightarrow>
          if sum_list (map length dag_vertex_set) \<noteq> length (layers N) then Inl AssertionError
          else
            (case topological_order N dag_vertex_set of
               Inl e \<Rightarrow> Inl e
             | Inr vlist \<Rightarrow>
                 (case vertex_dict_vertices 0 vlist Map.empty of
                    Inl e \<Rightarrow> Inl e
                  | Inr d \<Rightarrow>
                      (case adjacency N d (layers N) (\<lambda>vidx. [], \<lambda>vidx. []) of
                         Inl e \<Rightarrow> Inl e
                       | Inr (prevd, nextd) \<Rightarrow>
                           Inr (vlist, d, prevd,
                                nextd(dag_input_vertex :=
                                  filter (\<lambda>vidx. dag_input_vertex \<in> set (prevd vidx))
                                         (map int [0 ..< length vlist])))))))"

section \<open>The pipeline object\<close>

text \<open>
  The constructor takes any Python objects; what it asks of \<^verbatim>\<open>network\<close> and
  \<^verbatim>\<open>resource\<close> is whether they are instances of \<^verbatim>\<open>Network\<close> and of \<^verbatim>\<open>Resource\<close>.
\<close>

datatype ('l, 'r) py_object =
  Network_Instance "'l network" | Resource_Instance 'r | Other_Object

definition init ::
  "('l, 'r) py_object \<Rightarrow> int \<Rightarrow> ('l, 'r) py_object \<Rightarrow> real
     \<Rightarrow> error + ('l, 'r) inter_layer_pipeline" where
  "init network_arg batch_size_arg resource_arg max_util_drop_arg =
     (case network_arg of
        Network_Instance N \<Rightarrow>
          (case resource_arg of
             Resource_Instance R \<Rightarrow>
               if \<not> (0 \<le> max_util_drop_arg \<and> max_util_drop_arg \<le> 1) then Inl ValueError
               else
                 (case calc_sched_dag N of
                    Inl e \<Rightarrow> Inl e
                  | Inr (vlist, d, prevd, nextd) \<Rightarrow>
                      Inr \<lparr>network = N, batch_size = batch_size_arg, resource = R,
                           max_util_drop = max_util_drop_arg,
                           dag_vertex_list = vlist, dag_vertex_dict = d,
                           dag_prev_dict = prevd, dag_next_dict = nextd,
                           seg_vertex_done = {}\<rparr>)
           | _ \<Rightarrow> Inl TypeError)
      | _ \<Rightarrow> Inl TypeError)"

text \<open>\<^verbatim>\<open>return list(sum(self.dag_vertex_list, tuple()))\<close>\<close>

definition ordered_layer_list :: "('l, 'r) inter_layer_pipeline \<Rightarrow> 'l list" where
  "ordered_layer_list P = concat (dag_vertex_list P)"

section \<open>Segment generation\<close>

text \<open>
  The options that \<^verbatim>\<open>gen_segment\<close> reads, and the external validator: the \<^verbatim>\<open>valid\<close>
  flag of \<^verbatim>\<open>PipelineSegment(seg, **kwargs)\<close>, a function of the keyword arguments and of
  the segment, which is a tuple of stages, each a tuple of layer names.
\<close>

record options =
  partition_interlayer :: bool
  hw_gbuf_save_writeback :: bool

type_synonym ('l, 'r) validator = "'l network \<Rightarrow> int \<Rightarrow> 'r \<Rightarrow> real \<Rightarrow> 'l list list \<Rightarrow> bool"

definition segment_valid ::
  "('l, 'r) validator \<Rightarrow> ('l, 'r) inter_layer_pipeline \<Rightarrow> 'l list list \<Rightarrow> bool" where
  "segment_valid V P seg = V (network P) (batch_size P) (resource P) (max_util_drop P) seg"

text \<open>
  The first loop of \<^verbatim>\<open>gen_segment\<close>, over the layers still to come: the segment of one
  layer is asserted to be valid and yielded. A generator is again the list of what it
  yielded and the exception that ended it, if any.
\<close>

fun gen_single_layers ::
  "('l, 'r) validator \<Rightarrow> ('l, 'r) inter_layer_pipeline \<Rightarrow> 'l list
     \<Rightarrow> 'l list list list \<times> error option" where
  "gen_single_layers V P [] = ([], None)"
| "gen_single_layers V P (layer # rest) =
     (if \<not> segment_valid V P [[layer]] then ([], Some AssertionError)
      else case gen_single_layers V P rest of (ys, st) \<Rightarrow> ([[layer]] # ys, st))"

text \<open>
  The candidates of one vertex segment. \<^verbatim>\<open>seg_cands\<close> is a Python set: adding an equal
  segment twice keeps one. It is the list of its elements in the order they were added.
  The vertex indices come from \<^verbatim>\<open>_gen_vseg\<close>, which yields indices of
  \<^verbatim>\<open>range(len(self.dag_vertex_list))\<close> only, so \<^verbatim>\<open>self.dag_vertex_list[vidx]\<close> is the
  element at position \<open>vidx\<close>.
\<close>

definition spatial_seg :: "('l, 'r) inter_layer_pipeline \<Rightarrow> int list \<Rightarrow> 'l list list" where
  "spatial_seg P vseg = map (\<lambda>vidx. dag_vertex_list P ! nat vidx) vseg"

definition temporal_seg :: "('l, 'r) inter_layer_pipeline \<Rightarrow> int list \<Rightarrow> 'l list list" where
  "temporal_seg P vseg = [concat (map (\<lambda>vidx. dag_vertex_list P ! nat vidx) vseg)]"

definition seg_cands :: "('l, 'r) inter_layer_pipeline \<Rightarrow> options \<Rightarrow> int list \<Rightarrow> 'l list list list" where
  "seg_cands P opts vseg =
     (let c1 = (if partition_interlayer opts then List.insert (spatial_seg P vseg) [] else []);
          c2 = (if hw_gbuf_save_writeback opts then List.insert (temporal_seg P vseg) c1 else c1)
      in rev c2)"

text \<open>
  \<^verbatim>\<open>gen_segment\<close>: the segments of the single layers, then for every vertex segment that
  \<^verbatim>\<open>self._gen_vseg()\<close> yields the candidates that the validator accepts. The call of
  \<^verbatim>\<open>_gen_vseg\<close> has the default arguments, vertex index 0 and no \<^verbatim>\<open>done\<close> set.
\<close>

definition gen_segment ::
  "('l, 'r) validator \<Rightarrow> ('l, 'r) inter_layer_pipeline \<Rightarrow> options
     \<Rightarrow> 'l list list list \<times> error option" where
  "gen_segment V P opts =
     (case gen_single_layers V P (layers (network P)) of
        (ys, Some e) \<Rightarrow> (ys, Some e)
      | (ys, None) \<Rightarrow>
          (case gen_vseg P 0 {} (seg_vertex_done P) of
             (vsegs, memo, st) \<Rightarrow>
               (ys @ concat (map (\<lambda>vseg. filter (segment_valid V P) (seg_cands P opts vseg)) vsegs),
                st)))"


section \<open>Notions used in the statements\<close>

text \<open>
  A configuration error is one of the two exceptions of the argument checks; the other
  exceptions come from the DAG builder and the sorter.
\<close>

definition configuration_error :: "error \<Rightarrow> bool" where
  "configuration_error e \<longleftrightarrow> e = TypeError \<or> e = ValueError"

definition structural_error :: "error \<Rightarrow> bool" where
  "structural_error e \<longleftrightarrow> e = AssertionError \<or> e = KeyError \<or> e = IndexError"

definition is_network :: "('l, 'r) py_object \<Rightarrow> bool" where
  "is_network x = (case x of Network_Instance N \<Rightarrow> True | _ \<Rightarrow> False)"

definition is_resource :: "('l, 'r) py_object \<Rightarrow> bool" where
  "is_resource x = (case x of Resource_Instance R \<Rightarrow> True | _ \<Rightarrow> False)"

text \<open>
  A small network for the concrete instances: convolutions \<open>A\<close>, \<open>B\<close> and \<open>C\<close> in a chain,
  with the pooling layer \<open>F\<close> between \<open>B\<close> and \<open>C\<close>.
\<close>

definition example_network :: "string network" where
  "example_network =
     \<lparr>layers = [''A'', ''B'', ''F'', ''C''],
      is_conv_layer = (\<lambda>l. l \<noteq> ''F''),
      prev_layers = (\<lambda>l. if l = ''A'' then [None] else if l = ''B'' then [Some ''A'']
                          else if l = ''F'' then [Some ''B''] else if l = ''C'' then [Some ''F'']
                          else []),
      next_layers = (\<lambda>l. if l = ''A'' then [Some ''B''] else if l = ''B'' then [Some ''F'']
                          else if l = ''F'' then [Some ''C''] else if l = ''C'' then [None]
                          else []),
      first_layers = [''A'']\<rparr>"

text \<open>The pipeline object that the constructor builds for it.\<close>

definition example_pipeline :: "(string, unit) inter_layer_pipeline" where
  "example_pipeline =
     \<lparr>network = example_network, batch_size = 1, resource = (), max_util_drop = 1 / 20,
      dag_vertex_list = [[''A''], [''B'', ''F''], [''C'']],
      dag_vertex_dict = [''A'' \<mapsto> 0, ''B'' \<mapsto> 1, ''F'' \<mapsto> 1, ''C'' \<mapsto> 2],
      dag_prev_dict = (\<lambda>vidx. if vidx = 0 then [- 1] else if vidx = 1 then [0]
                              else if vidx = 2 then [1] else []),
      dag_next_dict = (\<lambda>vidx. if vidx = - 1 then [0] else if vidx = 0 then [1]
                              else if vidx = 1 then [2] else []),
      seg_vertex_done = {}\<rparr>"

text \<open>A validator that accepts every segment, and one that rejects the segment of \<open>F\<close>.\<close>

definition accept_all :: "(string, unit) validator" where
  "accept_all N b R m seg = True"

definition reject_F :: "(string, unit) validator" where
  "reject_F N b R m seg \<longleftrightarrow> seg \<noteq> [[''F'']]"

text \<open>
  A network with a fan-out: the convolution \<open>A\<close> feeds the convolutions \<open>B\<close>, \<open>C\<close> and \<open>D\<close>.
  With it comes the pipeline object that the constructor builds for it; the depth-first
  order leaves the next vertices of vertex 0 as \<open>[3, 2, 1]\<close>.
\<close>

definition fan_network :: "string network" where
  "fan_network =
     \<lparr>layers = [''A'', ''B'', ''C'', ''D''],
      is_conv_layer = (\<lambda>l. True),
      prev_layers = (\<lambda>l. if l = ''A'' then [None]
                          else if l = ''B'' \<or> l = ''C'' \<or> l = ''D'' then [Some ''A''] else []),
      next_layers = (\<lambda>l. if l = ''A'' then [Some ''B'', Some ''C'', Some ''D'']
                          else if l = ''B'' \<or> l = ''C'' \<or> l = ''D'' then [None] else []),
      first_layers = [''A'']\<rparr>"

definition fan_pipeline :: "(string, unit) inter_layer_pipeline" where
  "fan_pipeline =
     \<lparr>network = fan_network, batch_size = 1, resource = (), max_util_drop = 1 / 20,
      dag_vertex_list = [[''A''], [''B''], [''C''], [''D'']],
      dag_vertex_dict = [''A'' \<mapsto> 0, ''B'' \<mapsto> 1, ''C'' \<mapsto> 2, ''D'' \<mapsto> 3],
      dag_prev_dict = (\<lambda>vidx. if vidx = 0 then [- 1]
                              else if vidx = 1 \<or> vidx = 2 \<or> vidx = 3 then [0] else []),
      dag_next_dict = (\<lambda>vidx. if vidx = - 1 then [0] else if vidx = 0 then [3, 2, 1] else []),
      seg_vertex_done = {}\<rparr>"

section \<open>The constructor's argument checks\<close>

lemma merge_scan_error: "merge_scan N l vs n = Inl e \<Longrightarrow> structural_error e"
  by (induction n) (auto simp: structural_error_def Let_def split: if_splits)

lemma merge_layers_error: "merge_layers N ls vs = Inl e \<Longrightarrow> structural_error e"
proof (induction ls arbitrary: vs)
  case Nil then show ?case by simp
next
  case (Cons l ls)
  then show ?case
    by (auto simp: merge_layer_def structural_error_def split: sum.splits if_splits
             dest: merge_scan_error)
qed

lemma dfs_error:
  "dfs N v st = Inl e \<Longrightarrow> structural_error e"
  "dfs_list N vs st = Inl e \<Longrightarrow> structural_error e"
proof (induction N v st and N vs st rule: dfs_dfs_list.induct)
  case (1 N vertex st)
  show ?case
  proof (cases "vertex \<in> seen st \<or> vertex \<in> set (visited st)")
    case True
    with "1.prems" show ?thesis by (simp add: structural_error_def)
  next
    case False
    with "1.prems" "1.IH"[OF False refl refl] show ?thesis
      by (auto simp: Let_def structural_error_def split: sum.splits if_splits)
  qed
next
  case (2 N st)
  then show ?case by simp
next
  case (3 N nv nvs st)
  then show ?case by (auto split: sum.splits)
qed

lemma topological_order_error: "topological_order N vs = Inl e \<Longrightarrow> structural_error e"
  by (auto simp: topological_order_def Let_def structural_error_def split: sum.splits if_splits
           dest: dfs_error(2))

lemma vertex_dict_layers_error: "vertex_dict_layers i v d = Inl e \<Longrightarrow> structural_error e"
  by (induction v arbitrary: d) (auto simp: structural_error_def split: if_splits)

lemma vertex_dict_vertices_error: "vertex_dict_vertices i vs d = Inl e \<Longrightarrow> structural_error e"
  by (induction vs arbitrary: i d) (auto split: sum.splits dest: vertex_dict_layers_error)

lemma add_prevs_error: "add_prevs d i ps prevd = Inl e \<Longrightarrow> structural_error e"
  by (induction d i ps prevd rule: add_prevs.induct)
     (auto simp: structural_error_def split: option.splits)

lemma add_nexts_error: "add_nexts d i ns nextd = Inl e \<Longrightarrow> structural_error e"
  by (induction d i ns nextd rule: add_nexts.induct)
     (auto simp: structural_error_def split: option.splits)

lemma adjacency_error: "adjacency N d ls pn = Inl e \<Longrightarrow> structural_error e"
proof (induction ls arbitrary: pn)
  case Nil
  then show ?case by (cases pn) simp
next
  case (Cons l ls)
  obtain p n where pn: "pn = (p, n)" by (cases pn)
  from Cons.prems show ?case unfolding pn
    by (auto simp: structural_error_def[of KeyError] split: option.splits sum.splits
             dest: add_prevs_error add_nexts_error Cons.IH)
qed

lemma calc_sched_dag_error: "calc_sched_dag N = Inl e \<Longrightarrow> structural_error e"
  unfolding calc_sched_dag_def
  by (auto simp: structural_error_def[of AssertionError] split: sum.splits if_splits prod.splits
           dest: merge_layers_error topological_order_error vertex_dict_vertices_error
                 adjacency_error)

text \<open>
  Claim C7. The constructor ends with a configuration error exactly when \<open>network\<close> is not
  a \<^verbatim>\<open>Network\<close>, \<open>resource\<close> is not a \<^verbatim>\<open>Resource\<close>, or \<open>max_util_drop\<close> is not within
  \<open>[0, 1]\<close>: a \<^verbatim>\<open>TypeError\<close> for the first two, a \<^verbatim>\<open>ValueError\<close> for the third, whatever the
  DAG builder would do with the network. With proper arguments the checks raise nothing:
  the result is the object with the attributes of the DAG builder, or the builder's own
  error, which is never a configuration error. A failed construction is an error value
  and holds no object.
\<close>

theorem init_argument_checks:
  "((\<exists>e. init n b r m = Inl e \<and> configuration_error e)
      \<longleftrightarrow> \<not> is_network n \<or> \<not> is_resource r \<or> \<not> (0 \<le> m \<and> m \<le> 1))
   \<and> (\<not> is_network n \<or> \<not> is_resource r \<longrightarrow> init n b r m = Inl TypeError)
   \<and> (is_network n \<and> is_resource r \<and> \<not> (0 \<le> m \<and> m \<le> 1) \<longrightarrow> init n b r m = Inl ValueError)
   \<and> (\<forall>N R. n = Network_Instance N \<and> r = Resource_Instance R \<and> 0 \<le> m \<and> m \<le> 1 \<longrightarrow>
         init n b r m =
           (case calc_sched_dag N of
              Inl e \<Rightarrow> Inl e
            | Inr (vlist, d, prevd, nextd) \<Rightarrow>
                Inr \<lparr>network = N, batch_size = b, resource = R, max_util_drop = m,
                     dag_vertex_list = vlist, dag_vertex_dict = d,
                     dag_prev_dict = prevd, dag_next_dict = nextd, seg_vertex_done = {}\<rparr>))"
proof -
  have dag: "\<And>N e. calc_sched_dag N = Inl e \<Longrightarrow> \<not> configuration_error e"
    by (auto dest!: calc_sched_dag_error simp: structural_error_def configuration_error_def)
  show ?thesis
    by (cases n; cases r)
       (auto simp: init_def is_network_def is_resource_def configuration_error_def
             split: sum.splits prod.splits dest: dag)
qed

theorem init_argument_checks_witness:
  "init (Network_Instance example_network) 1 (Resource_Instance ()) 2 = Inl ValueError
   \<and> init (Other_Object :: (string, unit) py_object) 1 (Resource_Instance ()) (1 / 2)
       = Inl TypeError
   \<and> init (Network_Instance example_network) 1 (Other_Object :: (string, unit) py_object) (1 / 2)
       = Inl TypeError"
  using init_argument_checks[of "Network_Instance example_network" 1 "Resource_Instance ()" 2]
        init_argument_checks[of "Other_Object :: (string, unit) py_object" 1
                                "Resource_Instance ()" "1 / 2"]
        init_argument_checks[of "Network_Instance example_network" 1
                                "Other_Object :: (string, unit) py_object" "1 / 2"]
  by (simp add: is_network_def is_resource_def)

section \<open>The segments of the single layers\<close>

lemma gen_single_layers_all_valid:
  "\<forall>l\<in>set ls. segment_valid V P [[l]] \<Longrightarrow>
     gen_single_layers V P ls = (map (\<lambda>l. [[l]]) ls, None)"
  by (induction ls) auto

lemma gen_single_layers_rejected:
  "\<forall>l\<in>set pre. segment_valid V P [[l]] \<Longrightarrow> \<not> segment_valid V P [[l]] \<Longrightarrow>
     gen_single_layers V P (pre @ l # post) = (map (\<lambda>l. [[l]]) pre, Some AssertionError)"
  by (induction pre) auto

lemma seg_cands_no_options:
  "\<not> partition_interlayer opts \<Longrightarrow> \<not> hw_gbuf_save_writeback opts \<Longrightarrow> seg_cands P opts vseg = []"
  by (simp add: seg_cands_def)

text \<open>
  Claim C5, as the code has it. When the validator accepts the segment of every single
  layer (the code asserts it), \<^verbatim>\<open>gen_segment\<close> with both options off yields exactly the
  segments \<open>((L,),)\<close> of the layers \<open>L\<close>, in the network's iteration order, and with any
  options what it yields starts with them.
\<close>


theorem gen_segment_single_layers:
  assumes "\<forall>l\<in>set (layers (network P)). segment_valid V P [[l]]"
  shows "fst (gen_segment V P \<lparr>partition_interlayer = False, hw_gbuf_save_writeback = False\<rparr>)
           = map (\<lambda>l. [[l]]) (layers (network P))
         \<and> (\<forall>opts. \<exists>rest. fst (gen_segment V P opts)
                             = map (\<lambda>l. [[l]]) (layers (network P)) @ rest)"
  using gen_single_layers_all_valid[OF assms]
  by (auto simp: gen_segment_def seg_cands_no_options split: prod.splits)

theorem gen_segment_single_layers_witness:
  "list_all (\<lambda>l. segment_valid accept_all example_pipeline [[l]]) (layers (network example_pipeline))
   \<and> fst (gen_segment accept_all example_pipeline
             \<lparr>partition_interlayer = False, hw_gbuf_save_writeback = False\<rparr>)
       = [[[''A'']], [[''B'']], [[''F'']], [[''C'']]]"
proof -
  have h: "\<forall>l\<in>set (layers (network example_pipeline)). segment_valid accept_all example_pipeline [[l]]"
    by (simp add: segment_valid_def accept_all_def)
  from gen_segment_single_layers[OF h] h show ?thesis
    by (simp add: example_pipeline_def example_network_def list_all_iff)
qed

text \<open>
  Claim C5 as stated fails: when the validator rejects the segment of the single layer
  \<open>F\<close> of the example network, \<^verbatim>\<open>gen_segment\<close> with both options off yields the
  segments of \<open>A\<close> and \<open>B\<close> only and ends with the failed assertion, so the segments of
  \<open>F\<close> and \<open>C\<close> are not yielded.
\<close>

theorem gen_segment_single_layers_counterexample:
  "layers (network example_pipeline) = [''A'', ''B'', ''F'', ''C'']
   \<and> \<not> segment_valid reject_F example_pipeline [[''F'']]
   \<and> gen_segment reject_F example_pipeline
         \<lparr>partition_interlayer = False, hw_gbuf_save_writeback = False\<rparr>
       = ([[[''A'']], [[''B'']]], Some AssertionError)
   \<and> fst (gen_segment reject_F example_pipeline
             \<lparr>partition_interlayer = False, hw_gbuf_save_writeback = False\<rparr>)
       \<noteq> [[[''A'']], [[''B'']], [[''F'']], [[''C'']]]"
  by (simp add: gen_segment_def example_pipeline_def example_network_def segment_valid_def
        reject_F_def)


text \<open>
  Claim C10. The segment of each single layer is checked by the validator before it is
  yielded. At the first layer whose segment the validator rejects, \<^verbatim>\<open>gen_segment\<close> ends
  with an \<^verbatim>\<open>AssertionError\<close>: it has yielded the segments of the layers before that one
  and yields nothing more. When no such segment is rejected, a rejected candidate of a
  vertex segment is left out and the generation goes on; it ends as \<^verbatim>\<open>_gen_vseg\<close> ends.
\<close>

theorem gen_segment_trivial_rejected:
  "(\<forall>pre l post. layers (network P) = pre @ l # post \<and> (\<forall>k\<in>set pre. segment_valid V P [[k]])
       \<and> \<not> segment_valid V P [[l]] \<longrightarrow>
       gen_segment V P opts = (map (\<lambda>k. [[k]]) pre, Some AssertionError))
   \<and> ((\<forall>l\<in>set (layers (network P)). segment_valid V P [[l]]) \<longrightarrow>
       (\<forall>vsegs memo st. gen_vseg P 0 {} (seg_vertex_done P) = (vsegs, memo, st) \<longrightarrow>
          gen_segment V P opts =
            (map (\<lambda>l. [[l]]) (layers (network P))
               @ concat (map (\<lambda>vseg. filter (segment_valid V P) (seg_cands P opts vseg)) vsegs),
             st)))"
  by (auto simp: gen_segment_def gen_single_layers_rejected gen_single_layers_all_valid)

theorem gen_segment_trivial_rejected_witness:
  "layers (network example_pipeline) = [''A'', ''B''] @ ''F'' # [''C'']
   \<and> segment_valid reject_F example_pipeline [[''A'']]
   \<and> segment_valid reject_F example_pipeline [[''B'']]
   \<and> \<not> segment_valid reject_F example_pipeline [[''F'']]
   \<and> gen_segment reject_F example_pipeline
        \<lparr>partition_interlayer = True, hw_gbuf_save_writeback = True\<rparr>
       = ([[[''A'']], [[''B'']]], Some AssertionError)"
proof -
  have h: "layers (network example_pipeline) = [''A'', ''B''] @ ''F'' # [''C'']
           \<and> (\<forall>k\<in>set [''A'', ''B'']. segment_valid reject_F example_pipeline [[k]])
           \<and> \<not> segment_valid reject_F example_pipeline [[''F'']]"
    by (simp add: example_pipeline_def example_network_def segment_valid_def reject_F_def)
  from gen_segment_trivial_rejected[of example_pipeline reject_F
         "\<lparr>partition_interlayer = True, hw_gbuf_save_writeback = True\<rparr>"] h
  have "gen_segment reject_F example_pipeline
          \<lparr>partition_interlayer = True, hw_gbuf_save_writeback = True\<rparr>
        = (map (\<lambda>k. [[k]]) [''A'', ''B''], Some AssertionError)"
    by blast
  with h show ?thesis by simp
qed


section \<open>Properties of the segment enumerator\<close>

text \<open>
  The rules of \<^verbatim>\<open>_gen_vseg\<close> as the code checks them while a segment grows from the start
  index \<open>s\<close>: \<open>run_ok P s e\<close> says that every frontier \<open>k\<close> after \<open>s\<close> up to \<open>e\<close> passed
  the test of rules 1 and 2 against the segment \<open>[s..k - 1]\<close> it was added to, and
  \<open>rule3 P vseg\<close> is the test of rule 3 on the whole segment. \<open>grown_vseg P i vseg\<close>: the
  segment is a run \<open>[s..e]\<close> of vertex indices with \<open>i \<le> s\<close> that was grown in this way
  and passes rule 3.
\<close>

declare gen_vseg.simps [simp del] gen_vseg_loop.simps [simp del]

definition run_ok :: "('l, 'r) inter_layer_pipeline \<Rightarrow> int \<Rightarrow> int \<Rightarrow> bool" where
  "run_ok P s e \<longleftrightarrow> (\<forall>k\<in>{s<..e}. share_deps P [s..k - 1] k \<and> \<not> coupled_prevs P [s..k - 1] k)"

definition rule3 :: "('l, 'r) inter_layer_pipeline \<Rightarrow> int list \<Rightarrow> bool" where
  "rule3 P vseg \<longleftrightarrow>
     (\<forall>i\<in>set vseg. set (dag_next_dict P i) \<inter> set vseg = {} \<or> set (dag_next_dict P i) \<subseteq> set vseg)"

definition grown_vseg :: "('l, 'r) inter_layer_pipeline \<Rightarrow> int \<Rightarrow> int list \<Rightarrow> bool" where
  "grown_vseg P i vseg \<longleftrightarrow>
     (\<exists>s e. i \<le> s \<and> s \<le> e \<and> e < int (length (dag_vertex_list P)) \<and> vseg = [s..e]
            \<and> run_ok P s e \<and> rule3 P vseg)"

text \<open>
  The three rules as properties of a finished segment. Rule 1: every vertex after the
  first has a previous vertex among the members before it or among their previous
  vertices. Rule 2: a vertex with more than one previous vertex has none of them in the
  segment. Rule 3 is \<open>rule3\<close> above. \<open>prev_decreasing\<close> and \<open>next_increasing\<close> say that
  the vertex order is topological: previous vertices have smaller indices, next vertices
  larger ones.
\<close>

definition rule1 :: "('l, 'r) inter_layer_pipeline \<Rightarrow> int list \<Rightarrow> bool" where
  "rule1 P vseg \<longleftrightarrow>
     (\<forall>n. 0 < n \<and> n < length vseg \<longrightarrow>
        set (dag_prev_dict P (vseg ! n))
          \<inter> (set (take n vseg) \<union> (\<Union>i\<in>set (take n vseg). set (dag_prev_dict P i))) \<noteq> {})"

definition rule2 :: "('l, 'r) inter_layer_pipeline \<Rightarrow> int list \<Rightarrow> bool" where
  "rule2 P vseg \<longleftrightarrow>
     (\<forall>i\<in>set vseg. card (set (dag_prev_dict P i)) > 1 \<longrightarrow> set (dag_prev_dict P i) \<inter> set vseg = {})"

definition prev_decreasing :: "('l, 'r) inter_layer_pipeline \<Rightarrow> bool" where
  "prev_decreasing P \<longleftrightarrow> (\<forall>i. \<forall>p\<in>set (dag_prev_dict P i). p < i)"

definition next_increasing :: "('l, 'r) inter_layer_pipeline \<Rightarrow> bool" where
  "next_increasing P \<longleftrightarrow> (\<forall>i. \<forall>j\<in>set (dag_next_dict P i). i < j)"

text \<open>
  The runs \<open>[s..e]\<close> with \<open>f \<le> e\<close> that the loop of start index \<open>s\<close> yields from the
  frontier \<open>f\<close> on, in the order of the loop.
\<close>

definition rest_runs :: "('l, 'r) inter_layer_pipeline \<Rightarrow> int \<Rightarrow> int \<Rightarrow> int list list" where
  "rest_runs P s f =
     map (\<lambda>e. [s..e])
       (filter (\<lambda>e. run_ok P s e \<and> rule3 P [s..e]) [f..int (length (dag_vertex_list P)) - 1])"

lemma check_rule3_valid_iff:
  "check_rule3 P vseg f xs = Rule3_Valid \<longleftrightarrow>
     (\<forall>i\<in>set xs. set (dag_next_dict P i) \<inter> set vseg = {} \<or> set (dag_next_dict P i) \<subseteq> set vseg)"
  by (induction xs) (auto simp: Let_def)

lemma check_rule3_valid_rule3: "check_rule3 P vseg f vseg = Rule3_Valid \<longleftrightarrow> rule3 P vseg"
  by (simp add: check_rule3_valid_iff rule3_def)

lemma gen_vseg_fst:
  "fst (gen_vseg P i dn memo) =
     fst (gen_vseg_loop P (if dag_input_vertex \<notin> dn then insert dag_input_vertex dn else dn)
            i [] (if dn = {} then {} else memo))"
  by (simp add: gen_vseg.simps Let_def split: prod.splits option.splits)

lemma gen_vseg_loop_yield_cases:
  assumes "vs \<in> set (fst (gen_vseg_loop P dn f vseg memo))"
  shows "f < int (length (dag_vertex_list P)) \<and> share_deps P vseg f \<and> \<not> coupled_prevs P vseg f
         \<and> ((check_rule3 P (vseg @ [f]) f (vseg @ [f]) = Rule3_Valid \<and> vs = vseg @ [f])
            \<or> (\<exists>m. vs \<in> set (fst (gen_vseg_loop P dn (f + 1) (vseg @ [f]) m)))
            \<or> (\<exists>d m. vs \<in> set (fst (gen_vseg P (f + 1) d m))))"
  using assms
  apply (subst (asm) gen_vseg_loop.simps)
  apply (auto simp: Let_def split: if_splits rule3_result.splits prod.splits option.splits)
  apply (metis fst_conv)+
  done

lemma run_ok_extend:
  "s \<le> f \<Longrightarrow> run_ok P s (f - 1) \<Longrightarrow> share_deps P [s..f - 1] f \<Longrightarrow> \<not> coupled_prevs P [s..f - 1] f
     \<Longrightarrow> run_ok P s f"
  unfolding run_ok_def
  by (metis greaterThanAtMost_iff zle_diff1_eq order_le_less)

lemma grown_vseg_mono:
  assumes "grown_vseg P i vs" "j \<le> i"
  shows "grown_vseg P j vs"
proof -
  from assms(1) obtain s e where
    "i \<le> s" "s \<le> e" "e < int (length (dag_vertex_list P))" "vs = [s..e]" "run_ok P s e" "rule3 P vs"
    unfolding grown_vseg_def by blast
  with assms(2) show ?thesis
    unfolding grown_vseg_def by (intro exI[of _ s] exI[of _ e]) auto
qed

lemma gen_vseg_loop_sound:
  "vseg = [s..f - 1] \<Longrightarrow> s \<le> f \<Longrightarrow> run_ok P s (f - 1)
     \<Longrightarrow> vs \<in> set (fst (gen_vseg_loop P dn f vseg memo)) \<Longrightarrow> grown_vseg P s vs"
proof (induction "nat (int (length (dag_vertex_list P)) - f)"
         arbitrary: f vseg s dn memo rule: less_induct)
  case less
  note c = gen_vseg_loop_yield_cases[OF less.prems(4)]
  from c have fV: "f < int (length (dag_vertex_list P))" by simp
  have vseg': "vseg @ [f] = [s..f]"
    using less.prems(1,2) by (simp add: upto_rec2)
  have ok: "run_ok P s f"
    using c less.prems(1-3) by (auto intro: run_ok_extend)
  have sm: "nat (int (length (dag_vertex_list P)) - (f + 1)) < nat (int (length (dag_vertex_list P)) - f)"
    using fV by simp
  from c consider
      (here) "check_rule3 P (vseg @ [f]) f (vseg @ [f]) = Rule3_Valid" "vs = vseg @ [f]"
    | (loop) m where "vs \<in> set (fst (gen_vseg_loop P dn (f + 1) (vseg @ [f]) m))"
    | (rec) d m where "vs \<in> set (fst (gen_vseg P (f + 1) d m))"
    by blast
  then show ?case
  proof cases
    case here
    then show ?thesis
      using vseg' ok fV less.prems(2)
      by (auto simp: grown_vseg_def check_rule3_valid_rule3)
  next
    case loop
    have "grown_vseg P s vs"
      by (rule less.hyps[OF sm _ _ _ loop]) (use vseg' ok less.prems(2) in auto)
    then show ?thesis .
  next
    case rec
    have "grown_vseg P (f + 1) vs"
      by (rule less.hyps[OF sm _ _ _ rec[unfolded gen_vseg_fst]])
         (auto simp: run_ok_def)
    then show ?thesis
      using less.prems(2) by (auto intro: grown_vseg_mono)
  qed
qed

lemma gen_vseg_sound:
  "vs \<in> set (fst (gen_vseg P i dn memo)) \<Longrightarrow> grown_vseg P i vs"
  unfolding gen_vseg_fst
  by (rule gen_vseg_loop_sound[where f = i and s = i]) (auto simp: run_ok_def)


lemma min_missing_next:
  assumes "next_increasing P" "s \<le> idx" "idx \<le> f"
    and ne: "\<not> set (dag_next_dict P idx) \<subseteq> {s..f}"
  shows "f < Min (set (dag_next_dict P idx) - {s..f})"
proof -
  let ?D = "set (dag_next_dict P idx) - {s..f}"
  have fin: "finite ?D" by simp
  have nonempty: "?D \<noteq> {}" using ne by blast
  have "f < j" if j: "j \<in> ?D" for j
  proof -
    have "idx < j" using assms(1) j unfolding next_increasing_def by blast
    moreover have "\<not> (s \<le> j \<and> j \<le> f)" using j by simp
    ultimately show "f < j" using assms(2) by linarith
  qed
  then show ?thesis using Min_gr_iff[OF fin nonempty] by blast
qed

lemma check_rule3_no_assert:
  assumes "next_increasing P" "s \<le> f" "set xs \<subseteq> {s..f}"
  shows "check_rule3 P [s..f] f xs \<noteq> Rule3_Assert_Failed"
  using assms(3)
proof (induction xs)
  case Nil
  then show ?case by simp
next
  case (Cons idx xs)
  have IH: "check_rule3 P [s..f] f xs \<noteq> Rule3_Assert_Failed"
    using Cons by simp
  have idx: "s \<le> idx" "idx \<le> f" using Cons.prems by simp_all
  show ?case
  proof (cases "set (dag_next_dict P idx) \<inter> {s..f} = {} \<or> set (dag_next_dict P idx) \<subseteq> {s..f}")
    case True
    then show ?thesis using IH by (simp add: Let_def)
  next
    case False
    then have "f < Min (set (dag_next_dict P idx) - {s..f})"
      using min_missing_next[OF assms(1) idx] by blast
    then show ?thesis using False by (simp add: Let_def)
  qed
qed

lemma run_ok_prefix: "run_ok P s e \<Longrightarrow> e' \<le> e \<Longrightarrow> run_ok P s e'"
  by (auto simp: run_ok_def)

lemma run_ok_step: "run_ok P s e \<Longrightarrow> s < k \<Longrightarrow> k \<le> e \<Longrightarrow> share_deps P [s..k - 1] k \<and> \<not> coupled_prevs P [s..k - 1] k"
  by (auto simp: run_ok_def)

lemma rest_runs_empty: "int (length (dag_vertex_list P)) \<le> f \<Longrightarrow> rest_runs P s f = []"
  by (simp add: rest_runs_def)

lemma rest_runs_stop:
  assumes "s < f" "\<not> share_deps P [s..f - 1] f \<or> coupled_prevs P [s..f - 1] f"
  shows "rest_runs P s f = []"
proof -
  have "\<not> run_ok P s e" if "e \<in> set [f..int (length (dag_vertex_list P)) - 1]" for e
    using run_ok_step[of P s e f] assms that by auto
  then show ?thesis by (simp add: rest_runs_def)
qed

lemma rest_runs_step:
  assumes "f < int (length (dag_vertex_list P))"
  shows "rest_runs P s f =
           (if run_ok P s f \<and> rule3 P [s..f] then [[s..f]] else []) @ rest_runs P s (f + 1)"
proof -
  have "[f..int (length (dag_vertex_list P)) - 1] = f # [f + 1..int (length (dag_vertex_list P)) - 1]"
    using assms by (simp add: upto_rec1)
  then show ?thesis by (simp add: rest_runs_def)
qed

lemma gen_vseg_loop_exhausted:
  "\<not> f < int (length (dag_vertex_list P)) \<Longrightarrow> gen_vseg_loop P dn f vseg memo = ([], memo, None)"
  by (subst gen_vseg_loop.simps) simp

lemma gen_vseg_loop_stop:
  "f < int (length (dag_vertex_list P)) \<Longrightarrow> \<not> share_deps P vseg f \<or> coupled_prevs P vseg f
     \<Longrightarrow> gen_vseg_loop P dn f vseg memo
           = (if vseg = [] then ([], memo, Some AssertionError) else ([], memo, None))"
  by (subst gen_vseg_loop.simps) simp

lemma gen_vseg_loop_invalid:
  "f < int (length (dag_vertex_list P)) \<Longrightarrow> share_deps P vseg f \<Longrightarrow> \<not> coupled_prevs P vseg f
     \<Longrightarrow> check_rule3 P (vseg @ [f]) f (vseg @ [f]) = Rule3_Invalid
     \<Longrightarrow> gen_vseg_loop P dn f vseg memo = gen_vseg_loop P dn (f + 1) (vseg @ [f]) memo"
  by (subst gen_vseg_loop.simps) (simp add: Let_def)

lemma gen_vseg_loop_assert:
  "f < int (length (dag_vertex_list P)) \<Longrightarrow> share_deps P vseg f \<Longrightarrow> \<not> coupled_prevs P vseg f
     \<Longrightarrow> check_rule3 P (vseg @ [f]) f (vseg @ [f]) = Rule3_Assert_Failed
     \<Longrightarrow> gen_vseg_loop P dn f vseg memo = ([], memo, Some AssertionError)"
  by (subst gen_vseg_loop.simps) (simp add: Let_def)

lemma gen_vseg_loop_valid_done:
  "f < int (length (dag_vertex_list P)) \<Longrightarrow> share_deps P vseg f \<Longrightarrow> \<not> coupled_prevs P vseg f
     \<Longrightarrow> check_rule3 P (vseg @ [f]) f (vseg @ [f]) = Rule3_Valid \<Longrightarrow> f + 1 \<in> memo
     \<Longrightarrow> gen_vseg_loop P dn f vseg memo
           = (case gen_vseg_loop P dn (f + 1) (vseg @ [f]) memo of
                (ys, memo', st) \<Rightarrow> ((vseg @ [f]) # ys, memo', st))"
  by (subst gen_vseg_loop.simps) (simp add: Let_def)

lemma gen_vseg_loop_valid_rec:
  "f < int (length (dag_vertex_list P)) \<Longrightarrow> share_deps P vseg f \<Longrightarrow> \<not> coupled_prevs P vseg f
     \<Longrightarrow> check_rule3 P (vseg @ [f]) f (vseg @ [f]) = Rule3_Valid \<Longrightarrow> f + 1 \<notin> memo
     \<Longrightarrow> gen_vseg_loop P dn f vseg memo
           = (case gen_vseg P (f + 1) (dn \<union> set (vseg @ [f])) memo of
                (ys1, memo1, Some e) \<Rightarrow> ((vseg @ [f]) # ys1, memo1, Some e)
              | (ys1, memo1, None) \<Rightarrow>
                  (case gen_vseg_loop P dn (f + 1) (vseg @ [f]) memo1 of
                     (ys2, memo2, st) \<Rightarrow> ((vseg @ [f]) # ys1 @ ys2, memo2, st)))"
  by (subst gen_vseg_loop.simps) (simp add: Let_def)


lemma gen_vseg_loop_exact:
  "next_increasing P \<Longrightarrow> vseg = [s..f - 1] \<Longrightarrow> s < f \<Longrightarrow> f \<le> int (length (dag_vertex_list P))
     \<Longrightarrow> run_ok P s (f - 1) \<Longrightarrow> \<forall>j. f < j \<and> j \<le> int (length (dag_vertex_list P)) \<longrightarrow> j \<in> memo
     \<Longrightarrow> gen_vseg_loop P dn f vseg memo = (rest_runs P s f, memo, None)"
proof (induction "nat (int (length (dag_vertex_list P)) - f)" arbitrary: f vseg rule: less_induct)
  case less
  let ?V = "int (length (dag_vertex_list P))"
  show ?case
  proof (cases "f < ?V")
    case False
    then show ?thesis by (simp add: gen_vseg_loop_exhausted rest_runs_empty)
  next
    case fV: True
    have ne: "vseg \<noteq> []" using less.prems(2,3) by (simp add: upto_rec1)
    show ?thesis
    proof (cases "\<not> share_deps P vseg f \<or> coupled_prevs P vseg f")
      case True
      have "rest_runs P s f = []"
        by (rule rest_runs_stop[OF less.prems(3)]) (use True less.prems(2) in simp)
      with ne show ?thesis by (simp add: gen_vseg_loop_stop[OF fV True])
    next
      case False
      then have ext: "share_deps P vseg f" "\<not> coupled_prevs P vseg f" by simp_all
      have vseg': "vseg @ [f] = [s..f]"
        using less.prems(2,3) by (simp add: upto_rec2)
      have ok: "run_ok P s f"
        by (rule run_ok_extend) (use ext less.prems(2,3,5) in simp_all)
      have na: "check_rule3 P [s..f] f [s..f] \<noteq> Rule3_Assert_Failed"
        by (rule check_rule3_no_assert[OF less.prems(1)]) (use less.prems(3) in simp_all)
      have IH: "gen_vseg_loop P dn (f + 1) [s..f] memo = (rest_runs P s (f + 1), memo, None)"
      proof (rule less.hyps)
        show "nat (?V - (f + 1)) < nat (?V - f)" using fV by simp
        show "next_increasing P" by (rule less.prems(1))
        show "[s..f] = [s..f + 1 - 1]" by simp
        show "s < f + 1" using less.prems(3) by simp
        show "f + 1 \<le> ?V" using fV by simp
        show "run_ok P s (f + 1 - 1)" using ok by simp
        show "\<forall>j. f + 1 < j \<and> j \<le> ?V \<longrightarrow> j \<in> memo" using less.prems(6) by simp
      qed
      have mem: "f + 1 \<in> memo" using less.prems(6) fV by simp
      show ?thesis
      proof (cases "rule3 P [s..f]")
        case True
        then have v: "check_rule3 P (vseg @ [f]) f (vseg @ [f]) = Rule3_Valid"
          by (simp add: check_rule3_valid_rule3 vseg')
        show ?thesis
          unfolding gen_vseg_loop_valid_done[OF fV ext v mem] vseg' IH rest_runs_step[OF fV, of s]
          using True ok by simp
      next
        case False
        then have v: "check_rule3 P (vseg @ [f]) f (vseg @ [f]) = Rule3_Invalid"
          using na unfolding vseg'
          by (cases "check_rule3 P [s..f] f [s..f]") (simp_all add: check_rule3_valid_rule3)
        show ?thesis
          unfolding gen_vseg_loop_invalid[OF fV ext v] vseg' IH rest_runs_step[OF fV, of s]
          using False by simp
      qed
    qed
  qed
qed

lemma rule3_single: "next_increasing P \<Longrightarrow> rule3 P [i]"
  unfolding rule3_def next_increasing_def by fastforce

lemma grown_vseg_start:
  assumes "next_increasing P" "i < int (length (dag_vertex_list P))"
  shows "grown_vseg P i vs \<longleftrightarrow>
           vs = [i] \<or> grown_vseg P (i + 1) vs \<or> vs \<in> set (rest_runs P i (i + 1))"
proof
  assume "grown_vseg P i vs"
  then obtain s e where se: "i \<le> s" "s \<le> e" "e < int (length (dag_vertex_list P))" "vs = [s..e]"
      "run_ok P s e" "rule3 P vs"
    unfolding grown_vseg_def by blast
  show "vs = [i] \<or> grown_vseg P (i + 1) vs \<or> vs \<in> set (rest_runs P i (i + 1))"
  proof (cases "s = i")
    case False
    then have "grown_vseg P (i + 1) vs"
      unfolding grown_vseg_def using se by (intro exI[of _ s] exI[of _ e]) auto
    then show ?thesis by simp
  next
    case True
    show ?thesis
    proof (cases "e = i")
      case True
      with \<open>s = i\<close> se show ?thesis by simp
    next
      case False
      then have "e \<in> set [i + 1..int (length (dag_vertex_list P)) - 1]"
        using se True by simp
      then have "vs \<in> set (rest_runs P i (i + 1))"
        unfolding rest_runs_def using se True by auto
      then show ?thesis by simp
    qed
  qed
next
  assume a: "vs = [i] \<or> grown_vseg P (i + 1) vs \<or> vs \<in> set (rest_runs P i (i + 1))"
  then consider "vs = [i]" | "grown_vseg P (i + 1) vs" | "vs \<in> set (rest_runs P i (i + 1))"
    by blast
  then show "grown_vseg P i vs"
  proof cases
    case 1
    then show ?thesis
      unfolding grown_vseg_def using assms rule3_single[OF assms(1), of i]
      by (intro exI[of _ i] exI[of _ i]) (auto simp: run_ok_def)
  next
    case 2
    then show ?thesis by (rule grown_vseg_mono) simp
  next
    case 3
    then obtain e where "i + 1 \<le> e" "e < int (length (dag_vertex_list P))" "vs = [i..e]"
        "run_ok P i e" "rule3 P [i..e]"
      unfolding rest_runs_def by auto
    then show ?thesis
      unfolding grown_vseg_def by (intro exI[of _ i] exI[of _ e]) auto
  qed
qed

lemma upto_eq_iff: "s \<le> e \<Longrightarrow> [s..e] = [s'..e'] \<longleftrightarrow> s = s' \<and> e = e'"
proof
  assume a: "s \<le> e" "[s..e] = [s'..e']"
  then have "set [s..e] = set [s'..e']" by simp
  then have "{s..e} = {s'..e'}" by simp
  with a(1) show "s = s' \<and> e = e'" by simp
qed simp

lemma grown_vseg_not_single:
  assumes "grown_vseg P (i + 1) vs"
  shows "vs \<noteq> [i]"
proof -
  from assms obtain s e where se: "i + 1 \<le> s" "s \<le> e" "vs = [s..e]"
    unfolding grown_vseg_def by blast
  have "[s..e] = s # [s + 1..e]" using se(2) by (rule upto_rec1)
  then have "hd vs = s" using se(3) by simp
  then show ?thesis using se(1) by auto
qed

lemma rest_runs_distinct: "s \<le> f \<Longrightarrow> distinct (rest_runs P s f)"
proof -
  assume sf: "s \<le> f"
  have "inj_on (\<lambda>e. [s..e]) {f..}"
  proof (rule inj_onI)
    fix x y assume "x \<in> {f..}" "y \<in> {f..}" "[s..x] = [s..y]"
    then show "x = y" using upto_eq_iff[of s x s y] sf by simp
  qed
  then have "inj_on (\<lambda>e. [s..e])
               (set (filter (\<lambda>e. run_ok P s e \<and> rule3 P [s..e]) [f..int (length (dag_vertex_list P)) - 1]))"
    by (rule inj_on_subset) auto
  then show ?thesis
    unfolding rest_runs_def by (simp add: distinct_map)
qed

lemma rest_runs_elem:
  "vs \<in> set (rest_runs P s f) \<Longrightarrow> \<exists>e. f \<le> e \<and> vs = [s..e]"
  unfolding rest_runs_def by auto

lemma rest_runs_not_grown_later:
  assumes "vs \<in> set (rest_runs P i (i + 1))"
  shows "\<not> grown_vseg P (i + 1) vs" "vs \<noteq> [i]"
proof -
  from rest_runs_elem[OF assms] obtain e where e: "i + 1 \<le> e" "vs = [i..e]" by blast
  have "[i..e] = i # [i + 1..e]" using e(1) by (intro upto_rec1) simp
  moreover have "[i + 1..e] = (i + 1) # [i + 1 + 1..e]" using e(1) by (rule upto_rec1)
  ultimately have vs: "vs = i # (i + 1) # [i + 1 + 1..e]" using e(2) by simp
  show "vs \<noteq> [i]" using vs by simp
  show "\<not> grown_vseg P (i + 1) vs"
  proof
    assume "grown_vseg P (i + 1) vs"
    then obtain s' e' where s': "i + 1 \<le> s'" "s' \<le> e'" "vs = [s'..e']"
      unfolding grown_vseg_def by blast
    have "[s'..e'] = s' # [s' + 1..e']" using s'(2) by (rule upto_rec1)
    then have "hd vs = s'" using s'(3) by simp
    moreover have "hd vs = i" using vs by simp
    ultimately show False using s'(1) by simp
  qed
qed

lemma gen_vseg_unfold:
  "gen_vseg_loop P (if dag_input_vertex \<notin> dn then insert dag_input_vertex dn else dn) i []
       (if dn = {} then {} else memo) = (ys, memo1, None)
     \<Longrightarrow> gen_vseg P i dn memo
           = (if i \<in> memo1 then (ys, memo1, Some AssertionError) else (ys, insert i memo1, None))"
  by (subst gen_vseg.simps) (simp add: Let_def)

lemma gen_vseg_exact:
  "next_increasing P \<Longrightarrow> i \<le> int (length (dag_vertex_list P))
     \<Longrightarrow> dn = {} \<or> (\<forall>j. i \<le> j \<and> j \<le> int (length (dag_vertex_list P)) \<longrightarrow> j \<notin> memo)
     \<Longrightarrow> \<exists>ys. gen_vseg P i dn memo
                = (ys, (if dn = {} then {} else memo) \<union> {i..int (length (dag_vertex_list P))}, None)
              \<and> distinct ys \<and> set ys = {vs. grown_vseg P i vs}"
proof (induction "nat (int (length (dag_vertex_list P)) - i)" arbitrary: i dn memo rule: less_induct)
  case less
  let ?V = "int (length (dag_vertex_list P))"
  define memo0 where "memo0 = (if dn = {} then {} else memo)"
  define dn1 where "dn1 = (if dag_input_vertex \<notin> dn then insert dag_input_vertex dn else dn)"
  have memo0: "\<forall>j. i \<le> j \<and> j \<le> ?V \<longrightarrow> j \<notin> memo0"
    using less.prems(3) by (auto simp: memo0_def)
  note unfold = gen_vseg_unfold[of P dn i memo, folded memo0_def dn1_def]
  show ?case
  proof (cases "i < ?V")
    case False
    then have iV: "i = ?V" using less.prems(2) by simp
    have "gen_vseg_loop P dn1 i [] memo0 = ([], memo0, None)"
      using False by (rule gen_vseg_loop_exhausted)
    then have "gen_vseg P i dn memo = ([], insert i memo0, None)"
      using memo0 less.prems(2) by (simp add: unfold)
    moreover have "{vs. grown_vseg P i vs} = {}"
      unfolding grown_vseg_def using iV by auto
    moreover have "insert i memo0 = memo0 \<union> {i..?V}" using iV by auto
    ultimately show ?thesis unfolding memo0_def by simp
  next
    case iV: True
    have sd: "share_deps P [] i" "\<not> coupled_prevs P [] i"
      by (simp_all add: share_deps_def coupled_prevs_def)
    have "check_rule3 P [i] i [i] = Rule3_Valid"
      unfolding check_rule3_valid_rule3 by (rule rule3_single[OF less.prems(1)])
    then have v: "check_rule3 P ([] @ [i]) i ([] @ [i]) = Rule3_Valid"
      by (simp only: append_Nil)
    have nm: "i + 1 \<notin> memo0" using memo0 iV by simp
    have "\<exists>ys. gen_vseg P (i + 1) (dn1 \<union> set ([] @ [i])) memo0
                = (ys, (if dn1 \<union> set ([] @ [i]) = {} then {} else memo0) \<union> {i + 1..?V}, None)
              \<and> distinct ys \<and> set ys = {vs. grown_vseg P (i + 1) vs}"
      (is "\<exists>ys. ?G ys")
    proof (rule less.hyps)
      show "nat (?V - (i + 1)) < nat (?V - i)" using iV by simp
      show "next_increasing P" by (rule less.prems(1))
      show "i + 1 \<le> ?V" using iV by simp
      show "dn1 \<union> set ([] @ [i]) = {} \<or> (\<forall>j. i + 1 \<le> j \<and> j \<le> ?V \<longrightarrow> j \<notin> memo0)"
        using memo0 by simp
    qed
    then obtain ys1 where ys1:
      "gen_vseg P (i + 1) (dn1 \<union> set ([] @ [i])) memo0 = (ys1, memo0 \<union> {i + 1..?V}, None)"
      "distinct ys1" "set ys1 = {vs. grown_vseg P (i + 1) vs}"
      by auto
    have rest: "gen_vseg_loop P dn1 (i + 1) [i] (memo0 \<union> {i + 1..?V})
                  = (rest_runs P i (i + 1), memo0 \<union> {i + 1..?V}, None)"
    proof (rule gen_vseg_loop_exact[OF less.prems(1)])
      show "[i] = [i..i + 1 - 1]" by simp
      show "i < i + 1" by simp
      show "i + 1 \<le> ?V" using iV by simp
      show "run_ok P i (i + 1 - 1)" by (simp add: run_ok_def)
      show "\<forall>j. i + 1 < j \<and> j \<le> ?V \<longrightarrow> j \<in> memo0 \<union> {i + 1..?V}" by simp
    qed
    have loop: "gen_vseg_loop P dn1 i [] memo0
                  = ([i] # ys1 @ rest_runs P i (i + 1), memo0 \<union> {i + 1..?V}, None)"
      unfolding gen_vseg_loop_valid_rec[OF iV sd v nm] ys1(1) by (simp add: rest)
    have notin: "i \<notin> memo0 \<union> {i + 1..?V}" using memo0 iV by simp
    have eq: "gen_vseg P i dn memo
               = ([i] # ys1 @ rest_runs P i (i + 1), insert i (memo0 \<union> {i + 1..?V}), None)"
      using notin by (simp add: unfold[OF loop])
    have memo_eq: "insert i (memo0 \<union> {i + 1..?V}) = memo0 \<union> {i..?V}"
      using iV by auto
    have d: "distinct ([i] # ys1 @ rest_runs P i (i + 1))"
      using ys1(2,3) rest_runs_distinct[of i "i + 1" P] rest_runs_not_grown_later[of _ P i]
        grown_vseg_not_single[of P i]
      by auto
    have st: "set ([i] # ys1 @ rest_runs P i (i + 1)) = {vs. grown_vseg P i vs}"
      using ys1(3) grown_vseg_start[OF less.prems(1) iV] by auto
    have "gen_vseg P i dn memo
            = ([i] # ys1 @ rest_runs P i (i + 1), (if dn = {} then {} else memo) \<union> {i..?V}, None)"
      using eq unfolding memo_eq by (simp only: memo0_def)
    with d st show ?thesis by blast
  qed
qed

lemma take_upto: "s \<le> k \<Longrightarrow> k \<le> e + 1 \<Longrightarrow> take (nat (k - s)) [s..e] = [s..k - 1]"
proof -
  assume a: "s \<le> k" "k \<le> e + 1"
  show ?thesis
  proof (cases "k \<le> e")
    case True
    have "[s..e] = [s..k - 1] @ [k..e]" using a(1) True by (rule upto_split1)
    then show ?thesis using a(1) by simp
  next
    case False
    then have "k = e + 1" using a(2) by simp
    then show ?thesis by simp
  qed
qed

lemma run_ok_rule1:
  assumes "run_ok P s e"
  shows "rule1 P [s..e]"
  unfolding rule1_def
proof (intro allI impI)
  fix n assume n: "0 < n \<and> n < length [s..e]"
  define k where "k = s + int n"
  have k: "s < k" "k \<le> e" using n by (auto simp: k_def)
  have nth: "[s..e] ! n = k" using k(2) by (simp add: k_def)
  have tk: "take n [s..e] = [s..k - 1]"
    using take_upto[of s k e] k by (simp add: k_def)
  have ne: "[s..k - 1] \<noteq> []" using k(1) by simp
  from run_ok_step[OF assms k] ne show
    "set (dag_prev_dict P ([s..e] ! n))
       \<inter> (set (take n [s..e]) \<union> (\<Union>i\<in>set (take n [s..e]). set (dag_prev_dict P i))) \<noteq> {}"
    unfolding nth tk share_deps_def by blast
qed

lemma run_ok_rule2:
  assumes "run_ok P s e" "prev_decreasing P"
  shows "rule2 P [s..e]"
  unfolding rule2_def
proof (intro ballI impI)
  fix k assume k: "k \<in> set [s..e]" and c: "1 < card (set (dag_prev_dict P k))"
  have below: "\<forall>p\<in>set (dag_prev_dict P k). p < k"
    using assms(2) by (simp add: prev_decreasing_def)
  have "set (dag_prev_dict P k) \<inter> {s..k - 1} = {}"
  proof (cases "s < k")
    case True
    then have "\<not> coupled_prevs P [s..k - 1] k" using run_ok_step[OF assms(1), of k] k by simp
    then show ?thesis using c by (simp add: coupled_prevs_def)
  next
    case False
    then show ?thesis by simp
  qed
  then show "set (dag_prev_dict P k) \<inter> set [s..e] = {}"
    using below by fastforce
qed

lemma rules_run_ok:
  assumes "rule1 P [s..e]" "rule2 P [s..e]"
  shows "run_ok P s e"
  unfolding run_ok_def
proof
  fix k assume "k \<in> {s<..e}"
  then have k: "s < k" "k \<le> e" by simp_all
  define n where "n = nat (k - s)"
  have n: "0 < n \<and> n < length [s..e]" using k by (simp add: n_def)
  have nth: "[s..e] ! n = k" using k by (simp add: n_def)
  have tk: "take n [s..e] = [s..k - 1]"
    using take_upto[of s k e] k by (simp add: n_def)
  have "share_deps P [s..k - 1] k"
    using assms(1)[unfolded rule1_def, rule_format, OF n] unfolding nth tk share_deps_def by blast
  moreover have "\<not> coupled_prevs P [s..k - 1] k"
  proof
    assume cp: "coupled_prevs P [s..k - 1] k"
    then have "1 < card (set (dag_prev_dict P k))" by (simp add: coupled_prevs_def)
    moreover have "k \<in> set [s..e]" using k by simp
    ultimately have "set (dag_prev_dict P k) \<inter> set [s..e] = {}"
      using assms(2) unfolding rule2_def by blast
    moreover have "set [s..k - 1] \<subseteq> set [s..e]" using k by auto
    ultimately show False using cp unfolding coupled_prevs_def by blast
  qed
  ultimately show "share_deps P [s..k - 1] k \<and> \<not> coupled_prevs P [s..k - 1] k" by simp
qed

lemma map_nth_upto:
  assumes "0 \<le> v" "v + int k < int (length xs)"
  shows "map (\<lambda>i. xs ! nat i) [v..v + int k] = take (Suc k) (drop (nat v) xs)"
proof (rule nth_equalityI)
  show "length (map (\<lambda>i. xs ! nat i) [v..v + int k]) = length (take (Suc k) (drop (nat v) xs))"
    using assms by simp
next
  fix n assume "n < length (map (\<lambda>i. xs ! nat i) [v..v + int k])"
  then have n: "n < Suc k" by simp
  then have "[v..v + int k] ! n = v + int n" by simp
  moreover have "nat (v + int n) = nat v + n" using assms(1) by simp
  ultimately show "map (\<lambda>i. xs ! nat i) [v..v + int k] ! n = take (Suc k) (drop (nat v) xs) ! n"
    using n assms by simp
qed

lemma example_next_increasing: "next_increasing example_pipeline"
  by (simp add: next_increasing_def example_pipeline_def)

lemma example_prev_decreasing: "prev_decreasing example_pipeline"
  by (simp add: prev_decreasing_def example_pipeline_def)

lemma example_gen_vseg:
  "gen_vseg example_pipeline 0 {} {}
     = ([[0], [1], [2], [1, 2], [0, 1], [0, 1, 2]], {0, 1, 2, 3}, None)"
  by code_simp

lemma fan_gen_vseg:
  "gen_vseg fan_pipeline 0 {} {}
     = ([[0], [1], [2], [3], [2, 3], [1, 2], [1, 2, 3], [0, 1, 2, 3]], {0, 1, 2, 3, 4}, None)"
  by code_simp

lemma fan_next_increasing: "next_increasing fan_pipeline"
  by (auto simp: next_increasing_def fan_pipeline_def)



lemma grown_vseg_run:
  assumes "grown_vseg P i vs" "0 \<le> i"
  shows "\<exists>v k. vs = [v..v + int k] \<and> i \<le> v \<and> 0 \<le> v
               \<and> v + int k < int (length (dag_vertex_list P)) \<and> run_ok P v (v + int k) \<and> rule3 P vs"
proof -
  from assms(1) obtain s e where se: "i \<le> s" "s \<le> e" "e < int (length (dag_vertex_list P))"
      "vs = [s..e]" "run_ok P s e" "rule3 P vs"
    unfolding grown_vseg_def by blast
  have e: "e = s + int (nat (e - s))" using se(2) by simp
  show ?thesis
    using se assms(2) by (intro exI[of _ s] exI[of _ "nat (e - s)"]) (simp flip: e)
qed

text \<open>
  Claim C9. Every vertex segment that \<^verbatim>\<open>_gen_vseg\<close> yields, when started at an index
  \<open>i \<ge> 0\<close>, is a run \<open>v, v + 1, \<dots>, v + k\<close> of consecutive vertex indices with \<open>i \<le> v\<close>, all
  of them indices of \<^verbatim>\<open>dag_vertex_list\<close>; the input vertex \<open>-1\<close> is not in it. So the
  stages of the spatial candidate are the vertices at consecutive positions of the
  topological order, and the temporal candidate is their concatenation.
\<close>

theorem gen_vseg_consecutive:
  assumes "vs \<in> set (fst (gen_vseg P i dn memo))" "0 \<le> i"
  shows "\<exists>v k. vs = [v..v + int k] \<and> i \<le> v \<and> 0 \<le> v
               \<and> v + int k < int (length (dag_vertex_list P))
               \<and> dag_input_vertex \<notin> set vs
               \<and> spatial_seg P vs = take (Suc k) (drop (nat v) (dag_vertex_list P))
               \<and> temporal_seg P vs = [concat (take (Suc k) (drop (nat v) (dag_vertex_list P)))]"
proof -
  from grown_vseg_run[OF gen_vseg_sound[OF assms(1)] assms(2)] obtain v k where
    vk: "vs = [v..v + int k]" "i \<le> v" "0 \<le> v" "v + int k < int (length (dag_vertex_list P))"
    by blast
  have m: "map (\<lambda>vidx. dag_vertex_list P ! nat vidx) vs
             = take (Suc k) (drop (nat v) (dag_vertex_list P))"
    unfolding vk(1) by (rule map_nth_upto[OF vk(3,4)])
  have "dag_input_vertex \<notin> set vs"
    using vk(3) by (simp add: vk(1) dag_input_vertex_def)
  with vk m show ?thesis
    unfolding spatial_seg_def temporal_seg_def by (intro exI[of _ v] exI[of _ k]) simp
qed

theorem gen_vseg_consecutive_witness:
  "[1, 2] \<in> set (fst (gen_vseg example_pipeline 0 {} {}))
   \<and> (\<exists>v k. [1, 2] = [v..v + int k] \<and> 0 \<le> v
          \<and> v + int k < int (length (dag_vertex_list example_pipeline))
          \<and> dag_input_vertex \<notin> set [1, 2 :: int]
          \<and> spatial_seg example_pipeline [1, 2]
               = take (Suc k) (drop (nat v) (dag_vertex_list example_pipeline)))"
proof -
  have h: "[1, 2] \<in> set (fst (gen_vseg example_pipeline 0 {} {}))"
    by (simp add: example_gen_vseg)
  from gen_vseg_consecutive[OF h] h show ?thesis by blast
qed

lemma gen_vseg_rules_dag:
  assumes "vs \<in> set (fst (gen_vseg P i dn memo))" "prev_decreasing P"
  shows "rule1 P vs \<and> rule2 P vs \<and> rule3 P vs"
proof -
  from gen_vseg_sound[OF assms(1)] obtain s e where
    "vs = [s..e]" "run_ok P s e" "rule3 P vs"
    unfolding grown_vseg_def by blast
  then show ?thesis
    using run_ok_rule1[of P s e] run_ok_rule2[of P s e, OF _ assms(2)] by simp
qed

text \<open>
  Claim C8. When next vertices have larger indices than their vertex, the assertion of
  the rule 3 check holds whenever it is reached: for a member \<open>idx\<close> of the segment
  \<open>[s..f]\<close> whose next vertices are neither all outside nor all inside the segment, the
  smallest next vertex outside is larger than the frontier \<open>f\<close>. So the check never ends
  in the failed assertion, the whole enumeration ends without an exception, and a segment
  that fails rule 3 is extended by the loop's next frontier \<open>f + 1\<close>.
\<close>

theorem rule3_assertion_holds:
  assumes "next_increasing P"
  shows "(\<forall>s f idx. s \<le> idx \<and> idx \<le> f
            \<and> \<not> (set (dag_next_dict P idx) \<inter> set [s..f] = {} \<or> set (dag_next_dict P idx) \<subseteq> set [s..f])
            \<longrightarrow> f < Min (set (dag_next_dict P idx) - set [s..f]))
       \<and> (\<forall>s f xs. s \<le> f \<and> set xs \<subseteq> {s..f} \<longrightarrow> check_rule3 P [s..f] f xs \<noteq> Rule3_Assert_Failed)
       \<and> (\<exists>ys memo'. gen_vseg P 0 {} memo = (ys, memo', None))
       \<and> (\<forall>dn f vseg memo. f < int (length (dag_vertex_list P)) \<and> share_deps P vseg f
             \<and> \<not> coupled_prevs P vseg f
             \<and> check_rule3 P (vseg @ [f]) f (vseg @ [f]) = Rule3_Invalid
             \<longrightarrow> gen_vseg_loop P dn f vseg memo = gen_vseg_loop P dn (f + 1) (vseg @ [f]) memo)"
proof (intro conjI)
  show "\<forall>s f idx. s \<le> idx \<and> idx \<le> f
          \<and> \<not> (set (dag_next_dict P idx) \<inter> set [s..f] = {} \<or> set (dag_next_dict P idx) \<subseteq> set [s..f])
          \<longrightarrow> f < Min (set (dag_next_dict P idx) - set [s..f])"
  proof (intro allI impI)
    fix s f idx
    assume a: "s \<le> idx \<and> idx \<le> f
      \<and> \<not> (set (dag_next_dict P idx) \<inter> set [s..f] = {} \<or> set (dag_next_dict P idx) \<subseteq> set [s..f])"
    then have "\<not> set (dag_next_dict P idx) \<subseteq> {s..f}" by simp
    from min_missing_next[OF assms _ _ this, of ] a
    have "f < Min (set (dag_next_dict P idx) - {s..f})" by blast
    then show "f < Min (set (dag_next_dict P idx) - set [s..f])" by (simp only: set_upto)
  qed
  show "\<forall>s f xs. s \<le> f \<and> set xs \<subseteq> {s..f} \<longrightarrow> check_rule3 P [s..f] f xs \<noteq> Rule3_Assert_Failed"
    using check_rule3_no_assert[OF assms] by blast
  show "\<exists>ys memo'. gen_vseg P 0 {} memo = (ys, memo', None)"
    using gen_vseg_exact[OF assms, of 0 "{}" memo] by auto
  show "\<forall>dn f vseg memo. f < int (length (dag_vertex_list P)) \<and> share_deps P vseg f
             \<and> \<not> coupled_prevs P vseg f
             \<and> check_rule3 P (vseg @ [f]) f (vseg @ [f]) = Rule3_Invalid
             \<longrightarrow> gen_vseg_loop P dn f vseg memo = gen_vseg_loop P dn (f + 1) (vseg @ [f]) memo"
    using gen_vseg_loop_invalid by blast
qed

lemma gen_vseg_complete_distinct_dag:
  assumes "next_increasing P" "prev_decreasing P"
  shows "\<exists>ys memo'. gen_vseg P 0 {} memo = (ys, memo', None) \<and> distinct ys
           \<and> set ys = {vs. (\<exists>s e. 0 \<le> s \<and> s \<le> e \<and> e < int (length (dag_vertex_list P)) \<and> vs = [s..e])
                            \<and> rule1 P vs \<and> rule2 P vs \<and> rule3 P vs}"
proof -
  from gen_vseg_exact[OF assms(1), of 0 "{}" memo] obtain ys memo' where
    ys: "gen_vseg P 0 {} memo = (ys, memo', None)" "distinct ys" "set ys = {vs. grown_vseg P 0 vs}"
    by auto
  have "grown_vseg P 0 vs \<longleftrightarrow>
          (\<exists>s e. 0 \<le> s \<and> s \<le> e \<and> e < int (length (dag_vertex_list P)) \<and> vs = [s..e])
          \<and> rule1 P vs \<and> rule2 P vs \<and> rule3 P vs" for vs
    unfolding grown_vseg_def
    using run_ok_rule1[of P] run_ok_rule2[OF _ assms(2)] rules_run_ok[of P] by blast
  with ys show ?thesis by blast
qed

theorem rule3_assertion_holds_witness:
  "next_increasing fan_pipeline
   \<and> check_rule3 fan_pipeline [0, 1] 1 [0, 1] = Rule3_Invalid
   \<and> 1 < Min (set (dag_next_dict fan_pipeline 0) - set [0..1])
   \<and> check_rule3 fan_pipeline [0..1] 1 [0, 1] \<noteq> Rule3_Assert_Failed
   \<and> snd (snd (gen_vseg fan_pipeline 0 {} {})) = None
   \<and> gen_vseg_loop fan_pipeline {dag_input_vertex} 1 [0] {1, 2, 3, 4}
       = gen_vseg_loop fan_pipeline {dag_input_vertex} (1 + 1) ([0] @ [1]) {1, 2, 3, 4}"
proof -
  note t = rule3_assertion_holds[OF fan_next_increasing, of "{}"]
  have inv: "check_rule3 fan_pipeline [0, 1] 1 [0, 1] = Rule3_Invalid"
    by code_simp
  have partial: "(0::int) \<le> 0 \<and> (0::int) \<le> 1
      \<and> \<not> (set (dag_next_dict fan_pipeline 0) \<inter> set [0..1] = {}
            \<or> set (dag_next_dict fan_pipeline 0) \<subseteq> set [0..1])"
    by (auto simp: fan_pipeline_def)
  have a: "1 < Min (set (dag_next_dict fan_pipeline 0) - set [0..1])"
    using t[THEN conjunct1, rule_format, of 0 0 1] partial by blast
  have b: "check_rule3 fan_pipeline [0..1] 1 [0, 1] \<noteq> Rule3_Assert_Failed"
    using t[THEN conjunct2, THEN conjunct1, rule_format, of 0 1 "[0, 1]"] by simp
  have c: "snd (snd (gen_vseg fan_pipeline 0 {} {})) = None"
    using t[THEN conjunct2, THEN conjunct2, THEN conjunct1] by auto
  have pre: "1 < int (length (dag_vertex_list fan_pipeline)) \<and> share_deps fan_pipeline [0] 1
      \<and> \<not> coupled_prevs fan_pipeline [0] 1
      \<and> check_rule3 fan_pipeline ([0] @ [1]) 1 ([0] @ [1]) = Rule3_Invalid"
    using inv by (simp add: fan_pipeline_def share_deps_def coupled_prevs_def)
  have d: "gen_vseg_loop fan_pipeline {dag_input_vertex} 1 [0] {1, 2, 3, 4}
       = gen_vseg_loop fan_pipeline {dag_input_vertex} (1 + 1) ([0] @ [1]) {1, 2, 3, 4}"
    using t[THEN conjunct2, THEN conjunct2, THEN conjunct2, rule_format,
            of 1 "[0]" "{dag_input_vertex}" "{1, 2, 3, 4}"] pre by blast
  from fan_next_increasing inv a b c d show ?thesis by blast
qed


section \<open>Properties of the DAG builder\<close>

text \<open>
  The test of the merge loop in the words of the design: the previous layers of the new
  layer are disjoint from the head of the vertex, its tail is one of them, and the tail
  has exactly one next layer. The second network is the one of the merge scenario.
\<close>

definition eligible :: "'l network \<Rightarrow> 'l \<Rightarrow> 'l list \<Rightarrow> bool" where
  "eligible N layer_name v \<longleftrightarrow>
     set (prev_layers N layer_name) \<inter> Some ` set (butlast v) = {}
     \<and> Some (last v) \<in> set (prev_layers N layer_name)
     \<and> length (next_layers N (last v)) = 1"

definition merge_example_network :: "string network" where
  "merge_example_network =
     \<lparr>layers = [''A'', ''B'', ''F''],
      is_conv_layer = (\<lambda>l. l = ''A''),
      prev_layers = (\<lambda>l. if l = ''A'' then [None] else if l = ''B'' then [Some ''A'']
                          else if l = ''F'' then [Some ''B''] else []),
      next_layers = (\<lambda>l. if l = ''A'' then [Some ''B''] else if l = ''B'' then [Some ''F'']
                          else if l = ''F'' then [None] else []),
      first_layers = [''A'']\<rparr>"

lemma merge_scan_Suc:
  "vs ! n \<noteq> [] \<Longrightarrow>
     merge_scan N l vs (Suc n)
       = (if eligible N l (vs ! n) then Inr (vs[n := vs ! n @ [l]]) else merge_scan N l vs n)"
  by (simp add: eligible_def Let_def)

lemma merge_scan_none:
  "\<forall>i<n. vs ! i \<noteq> [] \<and> \<not> eligible N l (vs ! i) \<Longrightarrow> merge_scan N l vs n = Inr (vs @ [[l]])"
proof (induction n)
  case 0
  then show ?case by simp
next
  case (Suc n)
  then show ?case by (simp add: merge_scan_Suc del: merge_scan.simps(2))
qed

lemma merge_scan_found:
  "i < n \<Longrightarrow> \<forall>k<n. vs ! k \<noteq> [] \<Longrightarrow> eligible N l (vs ! i)
     \<Longrightarrow> \<forall>j. i < j \<and> j < n \<longrightarrow> \<not> eligible N l (vs ! j)
     \<Longrightarrow> merge_scan N l vs n = Inr (vs[i := vs ! i @ [l]])"
proof (induction n)
  case 0
  then show ?case by simp
next
  case (Suc n)
  have ne: "vs ! n \<noteq> []" using Suc.prems(2) by simp
  show ?case
  proof (cases "i = n")
    case True
    with Suc.prems(3) show ?thesis by (simp add: merge_scan_Suc[OF ne] del: merge_scan.simps(2))
  next
    case False
    then have i: "i < n" using Suc.prems(1) by simp
    have n: "\<not> eligible N l (vs ! n)" using Suc.prems(4) i by simp
    have "merge_scan N l vs n = Inr (vs[i := vs ! i @ [l]])"
      by (rule Suc.IH[OF i]) (use Suc.prems in simp_all)
    then show ?thesis using n by (simp add: merge_scan_Suc[OF ne] del: merge_scan.simps(2))
  qed
qed

lemma merge_scan_result:
  assumes "merge_scan N l vs n = Inr vs'" "n \<le> length vs"
  shows "vs' = vs @ [[l]] \<or> (\<exists>i<n. vs' = vs[i := vs ! i @ [l]])"
  using assms
proof (induction n)
  case 0
  then show ?case by simp
next
  case (Suc n)
  then show ?case
    by (auto simp: Let_def less_Suc_eq split: if_splits)
qed

lemma merge_layer_subseq:
  assumes "merge_layer N l vs = Inr vs'" "\<forall>v\<in>set vs. subseq v ls"
  shows "\<forall>v\<in>set vs'. subseq v (ls @ [l])"
proof -
  have old: "\<forall>v\<in>set vs. subseq v (ls @ [l])"
    using assms(2) by (auto intro: subseq_rev_drop_many)
  have new: "subseq [l] (ls @ [l])" by (simp add: subseq_singleton_left)
  have app: "subseq (v @ [l]) (ls @ [l])" if "v \<in> set vs" for v
    using assms(2) that by (simp add: list_emb_append_mono)
  from assms(1) consider "vs' = vs @ [[l]]" | i where "i < length vs" "vs' = vs[i := vs ! i @ [l]]"
    using merge_scan_result[of N l vs "length vs" vs']
    by (auto simp: merge_layer_def split: if_splits)
  then show ?thesis
  proof cases
    case 1
    then show ?thesis using old new by auto
  next
    case 2
    show ?thesis
    proof
      fix v assume "v \<in> set vs'"
      then have "v \<in> insert (vs ! i @ [l]) (set vs)"
        using 2 set_update_subset_insert by fastforce
      then show "subseq v (ls @ [l])" using old app[of "vs ! i"] 2(1) by auto
    qed
  qed
qed

lemma merge_layers_subseq:
  "merge_layers N rest vs = Inr vs' \<Longrightarrow> \<forall>v\<in>set vs. subseq v ls
     \<Longrightarrow> \<forall>v\<in>set vs'. subseq v (ls @ rest)"
proof (induction rest arbitrary: vs ls)
  case Nil
  then show ?case by simp
next
  case (Cons l rest)
  from Cons.prems(1) obtain vs1 where
    a: "merge_layer N l vs = Inr vs1" and b: "merge_layers N rest vs1 = Inr vs'"
    by (auto split: sum.splits)
  from Cons.IH[OF b merge_layer_subseq[OF a Cons.prems(2)]] show ?case by simp
qed

lemma merge_layer_nonempty:
  assumes "merge_layer N l vs = Inr vs'" "[] \<notin> set vs"
  shows "[] \<notin> set vs'"
proof -
  from assms(1) consider "vs' = vs @ [[l]]" | i where "i < length vs" "vs' = vs[i := vs ! i @ [l]]"
    using merge_scan_result[of N l vs "length vs" vs']
    by (auto simp: merge_layer_def split: if_splits)
  then show ?thesis
  proof cases
    case 1
    then show ?thesis using assms(2) by simp
  next
    case 2
    have "set vs' \<subseteq> insert (vs ! i @ [l]) (set vs)"
      unfolding 2(2) by (rule set_update_subset_insert)
    then show ?thesis using assms(2) by auto
  qed
qed

lemma merge_layers_nonempty:
  "merge_layers N rest vs = Inr vs' \<Longrightarrow> [] \<notin> set vs \<Longrightarrow> [] \<notin> set vs'"
proof (induction rest arbitrary: vs)
  case Nil
  then show ?case by simp
next
  case (Cons l rest)
  from Cons.prems(1) obtain vs1 where
    a: "merge_layer N l vs = Inr vs1" and b: "merge_layers N rest vs1 = Inr vs'"
    by (auto split: sum.splits)
  from Cons.IH[OF b merge_layer_nonempty[OF a Cons.prems(2)]] show ?case .
qed

lemma merge_scan_cases:
  assumes "merge_scan N l vs n = Inr vs'"
  shows "vs' = vs @ [[l]] \<or> (\<exists>i<n. vs ! i \<noteq> [] \<and> eligible N l (vs ! i) \<and> vs' = vs[i := vs ! i @ [l]])"
  using assms
proof (induction n)
  case 0
  then show ?case by simp
next
  case (Suc n)
  show ?case
  proof (cases "vs ! n = []")
    case True
    with Suc.prems show ?thesis by simp
  next
    case False
    show ?thesis
    proof (cases "eligible N l (vs ! n)")
      case True
      with Suc.prems False have "vs' = vs[n := vs ! n @ [l]]"
        by (simp add: merge_scan_Suc del: merge_scan.simps(2))
      with True False show ?thesis by blast
    next
      case ne: False
      with Suc.prems False have "merge_scan N l vs n = Inr vs'"
        by (simp add: merge_scan_Suc del: merge_scan.simps(2))
      from Suc.IH[OF this] show ?thesis using less_Suc_eq by auto
    qed
  qed
qed

lemma merge_layer_cases:
  assumes "merge_layer N l vs = Inr vs'"
  shows "vs' = vs @ [[l]]
         \<or> (\<exists>A v B. vs = A @ v # B \<and> v \<noteq> [] \<and> eligible N l v \<and> vs' = A @ (v @ [l]) # B)"
proof -
  from assms have "vs' = vs @ [[l]] \<or> merge_scan N l vs (length vs) = Inr vs'"
    by (auto simp: merge_layer_def split: if_splits)
  then show ?thesis
  proof
    assume "vs' = vs @ [[l]]"
    then show ?thesis by simp
  next
    assume "merge_scan N l vs (length vs) = Inr vs'"
    from merge_scan_cases[OF this] show ?thesis
    proof
      assume "vs' = vs @ [[l]]"
      then show ?thesis by simp
    next
      assume "\<exists>i<length vs. vs ! i \<noteq> [] \<and> eligible N l (vs ! i) \<and> vs' = vs[i := vs ! i @ [l]]"
      then obtain i where i: "i < length vs" "vs ! i \<noteq> []" "eligible N l (vs ! i)"
          "vs' = vs[i := vs ! i @ [l]]"
        by blast
      have "vs = take i vs @ vs ! i # drop (Suc i) vs" using i(1) by (rule id_take_nth_drop)
      moreover have "vs' = take i vs @ (vs ! i @ [l]) # drop (Suc i) vs"
        unfolding i(4) using i(1) by (rule upd_conv_take_nth_drop)
      ultimately show ?thesis using i(2,3) by blast
    qed
  qed
qed

lemma merge_layers_snoc:
  "merge_layers N (ls @ [l]) vs
     = (case merge_layers N ls vs of Inl e \<Rightarrow> Inl e | Inr vs1 \<Rightarrow> merge_layer N l vs1)"
  by (induction ls arbitrary: vs) (auto split: sum.splits)

lemma merge_layer_conv_cases:
  assumes "merge_layer N l vs = Inr vs'"
  shows "vs' = vs @ [[l]]
         \<or> (\<not> is_conv_layer N l
            \<and> (\<exists>A v B. vs = A @ v # B \<and> v \<noteq> [] \<and> eligible N l v \<and> vs' = A @ (v @ [l]) # B))"
proof (cases "is_conv_layer N l")
  case True
  with assms show ?thesis by (simp add: merge_layer_def)
next
  case False
  with merge_layer_cases[OF assms] show ?thesis by blast
qed

lemma merge_layer_concat:
  assumes "merge_layer N l vs = Inr vs'"
  shows "set (concat vs') = insert l (set (concat vs))"
    and "length (concat vs') = Suc (length (concat vs))"
proof -
  from merge_layer_cases[OF assms] consider
      (new) "vs' = vs @ [[l]]"
    | (app) A v B where "vs = A @ v # B" "v \<noteq> []" "eligible N l v" "vs' = A @ (v @ [l]) # B"
    by blast
  note c = this
  show "set (concat vs') = insert l (set (concat vs))"
    by (rule c) auto
  show "length (concat vs') = Suc (length (concat vs))"
    by (rule c) auto
qed

lemma merge_layers_concat:
  "merge_layers N ls vs = Inr vs' \<Longrightarrow>
     set (concat vs') = set (concat vs) \<union> set ls
     \<and> length (concat vs') = length (concat vs) + length ls"
proof (induction ls arbitrary: vs)
  case Nil
  then show ?case by simp
next
  case (Cons l ls)
  from Cons.prems(1) obtain vs1 where
    a: "merge_layer N l vs = Inr vs1" and b: "merge_layers N ls vs1 = Inr vs'"
    by (auto split: sum.splits)
  from Cons.IH[OF b] merge_layer_concat[OF a] show ?case
    by (auto simp del: set_concat)
qed

lemma merge_layer_heads:
  assumes "merge_layer N l vs = Inr vs'"
  shows "hd ` set vs \<subseteq> hd ` set vs'"
    and "is_conv_layer N l \<Longrightarrow> l \<in> hd ` set vs'"
    and "\<forall>v\<in>set vs. \<forall>x\<in>set (tl v). \<not> is_conv_layer N x
           \<Longrightarrow> \<forall>v\<in>set vs'. \<forall>x\<in>set (tl v). \<not> is_conv_layer N x"
proof -
  from merge_layer_conv_cases[OF assms] consider
      (new) "vs' = vs @ [[l]]"
    | (app) A v B where "\<not> is_conv_layer N l" "vs = A @ v # B" "v \<noteq> []" "vs' = A @ (v @ [l]) # B"
    by blast
  note c = this
  show "hd ` set vs \<subseteq> hd ` set vs'"
    by (rule c) auto
  show "l \<in> hd ` set vs'" if "is_conv_layer N l"
    by (rule c) (use that in auto)
  show "\<forall>v\<in>set vs'. \<forall>x\<in>set (tl v). \<not> is_conv_layer N x"
    if "\<forall>v\<in>set vs. \<forall>x\<in>set (tl v). \<not> is_conv_layer N x"
    by (rule c) (use that in auto)
qed

lemma merge_layers_heads:
  "merge_layers N ls vs = Inr vs' \<Longrightarrow> \<forall>v\<in>set vs. \<forall>x\<in>set (tl v). \<not> is_conv_layer N x
     \<Longrightarrow> hd ` set vs \<subseteq> hd ` set vs'
         \<and> (\<forall>l\<in>set ls. is_conv_layer N l \<longrightarrow> l \<in> hd ` set vs')
         \<and> (\<forall>v\<in>set vs'. \<forall>x\<in>set (tl v). \<not> is_conv_layer N x)"
proof (induction ls arbitrary: vs)
  case Nil
  then show ?case by simp
next
  case (Cons l ls)
  from Cons.prems(1) obtain vs1 where
    a: "merge_layer N l vs = Inr vs1" and b: "merge_layers N ls vs1 = Inr vs'"
    by (auto split: sum.splits)
  have t1: "\<forall>v\<in>set vs1. \<forall>x\<in>set (tl v). \<not> is_conv_layer N x"
    using a Cons.prems(2) by (rule merge_layer_heads(3))
  have ih: "hd ` set vs1 \<subseteq> hd ` set vs'
         \<and> (\<forall>l\<in>set ls. is_conv_layer N l \<longrightarrow> l \<in> hd ` set vs')
         \<and> (\<forall>v\<in>set vs'. \<forall>x\<in>set (tl v). \<not> is_conv_layer N x)"
    using b t1 by (rule Cons.IH)
  have h1: "hd ` set vs \<subseteq> hd ` set vs1" using a by (rule merge_layer_heads(1))
  have 1: "hd ` set vs \<subseteq> hd ` set vs'"
    using h1 ih by (rule_tac subset_trans[of _ "hd ` set vs1"]) simp_all
  have 2: "l \<in> hd ` set vs'" if c: "is_conv_layer N l"
  proof -
    have "l \<in> hd ` set vs1" using a c by (rule merge_layer_heads(2))
    with ih show ?thesis by (simp add: subset_iff)
  qed
  have 3: "\<forall>l\<in>set ls. is_conv_layer N l \<longrightarrow> l \<in> hd ` set vs'" using ih by simp
  have 4: "\<forall>v\<in>set vs'. \<forall>x\<in>set (tl v). \<not> is_conv_layer N x" using ih by simp
  show ?case
    apply (intro conjI)
    subgoal by (rule 1)
    subgoal using 2 3 by simp
    subgoal by (rule 4)
    done
qed

text \<open>
  Claim C6. In the DAG builder, with a vertex set \<open>vs\<close> of non-empty vertices (as all
  vertex sets of the builder are): a \<^verbatim>\<open>ConvLayer\<close> becomes a new vertex of its own at the
  end; any other layer that has previous layers is appended to the eligible vertex of the
  largest index, which is the one created last, and becomes a new vertex of its own when
  no vertex is eligible. In particular a layer whose only previous layer is the last
  layer \<open>B\<close> of the vertex \<open>(A, B)\<close>, and which is the only next layer of \<open>B\<close>, turns that
  vertex into \<open>(A, B, layer)\<close>. The loop over the layers does nothing but these steps, one
  layer after the other from the vertex set it starts with, and never makes an empty
  vertex. So the vertices of the whole loop are non-empty and keep the layers in the
  order of the network; together they hold the layers of the network, each as often as
  the network lists it; every \<^verbatim>\<open>ConvLayer\<close> is the first layer of a vertex and no layer
  after the first of a vertex is a \<^verbatim>\<open>ConvLayer\<close>.
\<close>

theorem merge_layer_spec:
  assumes "[] \<notin> set vs"
  shows "(is_conv_layer N l \<longrightarrow> merge_layer N l vs = Inr (vs @ [[l]]))
       \<and> (\<not> is_conv_layer N l \<and> prev_layers N l \<noteq> [] \<longrightarrow>
            (\<forall>i. i < length vs \<and> eligible N l (vs ! i)
                  \<and> (\<forall>j. i < j \<and> j < length vs \<longrightarrow> \<not> eligible N l (vs ! j))
               \<longrightarrow> merge_layer N l vs = Inr (vs[i := vs ! i @ [l]]))
            \<and> ((\<forall>i<length vs. \<not> eligible N l (vs ! i))
               \<longrightarrow> merge_layer N l vs = Inr (vs @ [[l]])))
       \<and> (\<forall>i A B. \<not> is_conv_layer N l \<and> i < length vs \<and> vs ! i = [A, B] \<and> A \<noteq> B
              \<and> (\<forall>j<length vs. j \<noteq> i \<longrightarrow> last (vs ! j) \<noteq> B)
              \<and> set (prev_layers N l) = {Some B} \<and> next_layers N B = [Some l]
              \<longrightarrow> merge_layer N l vs = Inr (vs[i := [A, B, l]]))
       \<and> (\<forall>vs'. merge_layers N (layers N) [] = Inr vs'
              \<longrightarrow> (\<forall>v\<in>set vs'. v \<noteq> [] \<and> subseq v (layers N)))
       \<and> merge_layers N [] vs = Inr vs
       \<and> (\<forall>ls l'. merge_layers N (ls @ [l']) vs
                    = (case merge_layers N ls vs of
                         Inl e \<Rightarrow> Inl e
                       | Inr vs1 \<Rightarrow> merge_layer N l' vs1))
       \<and> (\<forall>ls vs1. merge_layers N ls vs = Inr vs1 \<longrightarrow> [] \<notin> set vs1)
       \<and> (\<forall>vs'. merge_layers N (layers N) [] = Inr vs'
              \<longrightarrow> set (concat vs') = set (layers N)
                  \<and> length (concat vs') = length (layers N)
                  \<and> (distinct (layers N) \<longrightarrow> distinct (concat vs'))
                  \<and> (\<forall>l'\<in>set (layers N). is_conv_layer N l' \<longrightarrow> (\<exists>v\<in>set vs'. hd v = l'))
                  \<and> (\<forall>v\<in>set vs'. \<forall>x\<in>set (tl v). \<not> is_conv_layer N x))"
proof -
  have ne: "\<forall>k<length vs. vs ! k \<noteq> []" using assms by (metis nth_mem)
  have c1: "merge_layer N l vs = Inr (vs @ [[l]])" if "is_conv_layer N l"
    using that by (simp add: merge_layer_def)
  have c2: "merge_layer N l vs = Inr (vs[i := vs ! i @ [l]])"
    if "\<not> is_conv_layer N l \<and> prev_layers N l \<noteq> []"
      and "i < length vs \<and> eligible N l (vs ! i)
           \<and> (\<forall>j. i < j \<and> j < length vs \<longrightarrow> \<not> eligible N l (vs ! j))" for i
    using that merge_scan_found[of i "length vs" vs N l] ne by (simp add: merge_layer_def)
  have c3: "merge_layer N l vs = Inr (vs @ [[l]])"
    if "\<not> is_conv_layer N l \<and> prev_layers N l \<noteq> []" and "\<forall>i<length vs. \<not> eligible N l (vs ! i)"
    using that merge_scan_none[of "length vs" vs N l] ne by (simp add: merge_layer_def)
  have c4: "merge_layer N l vs = Inr (vs[i := [A, B, l]])"
    if a: "\<not> is_conv_layer N l \<and> i < length vs \<and> vs ! i = [A, B] \<and> A \<noteq> B
        \<and> (\<forall>j<length vs. j \<noteq> i \<longrightarrow> last (vs ! j) \<noteq> B)
        \<and> set (prev_layers N l) = {Some B} \<and> next_layers N B = [Some l]" for i A B
  proof -
    have e: "eligible N l (vs ! i)" using a by (auto simp: eligible_def)
    have o: "\<forall>j. i < j \<and> j < length vs \<longrightarrow> \<not> eligible N l (vs ! j)"
      using a by (auto simp: eligible_def)
    have "prev_layers N l \<noteq> []" using a by auto
    then have "merge_layer N l vs = merge_scan N l vs (length vs)"
      using a by (simp add: merge_layer_def)
    also have "\<dots> = Inr (vs[i := vs ! i @ [l]])"
      using merge_scan_found[of i "length vs" vs N l] a ne e o by blast
    finally show ?thesis using a by simp
  qed
  have c5: "v \<noteq> [] \<and> subseq v (layers N)"
    if "merge_layers N (layers N) [] = Inr vs'" "v \<in> set vs'" for vs' v
    using merge_layers_subseq[OF that(1), of "[]"] merge_layers_nonempty[OF that(1)] that(2)
    by auto
  have c6: "merge_layers N [] vs = Inr vs" by simp
  have c7: "merge_layers N (ls @ [l']) vs
              = (case merge_layers N ls vs of
                   Inl e \<Rightarrow> Inl e
                 | Inr vs1 \<Rightarrow> merge_layer N l' vs1)" for ls l'
    by (rule merge_layers_snoc)
  have c8: "[] \<notin> set vs1" if "merge_layers N ls vs = Inr vs1" for ls vs1
    using merge_layers_nonempty[OF that assms] .
  have c9: "set (concat vs') = set (layers N)
            \<and> length (concat vs') = length (layers N)
            \<and> (distinct (layers N) \<longrightarrow> distinct (concat vs'))
            \<and> (\<forall>l'\<in>set (layers N). is_conv_layer N l' \<longrightarrow> (\<exists>v\<in>set vs'. hd v = l'))
            \<and> (\<forall>v\<in>set vs'. \<forall>x\<in>set (tl v). \<not> is_conv_layer N x)"
    if m: "merge_layers N (layers N) [] = Inr vs'" for vs'
  proof -
    from merge_layers_concat[OF m]
    have s: "set (concat vs') = set (layers N)" and n: "length (concat vs') = length (layers N)"
      by simp_all
    have d: "distinct (concat vs')" if "distinct (layers N)"
    proof -
      have "card (set (concat vs')) = length (concat vs')"
        unfolding s n using that by (rule distinct_card)
      then show ?thesis by (rule card_distinct)
    qed
    from merge_layers_heads[OF m]
    have h: "\<forall>l'\<in>set (layers N). is_conv_layer N l' \<longrightarrow> l' \<in> hd ` set vs'"
      and t: "\<forall>v\<in>set vs'. \<forall>x\<in>set (tl v). \<not> is_conv_layer N x"
      by simp_all
    from h have h': "\<forall>l'\<in>set (layers N). is_conv_layer N l' \<longrightarrow> (\<exists>v\<in>set vs'. hd v = l')"
      by blast
    from s n d h' t show ?thesis by blast
  qed
  show ?thesis
    apply (intro conjI allI impI)
    subgoal by (rule c1)
    subgoal by (rule c2)
    subgoal by (rule c3)
    subgoal by (rule c4)
    subgoal using c5 by blast
    subgoal by (rule c6)
    subgoal by (rule c7)
    subgoal by (rule c8)
    subgoal using c9 by blast
    subgoal using c9 by blast
    subgoal using c9 by blast
    subgoal using c9 by blast
    subgoal using c9 by blast
    done
qed

theorem merge_layer_spec_witness:
  "merge_layer merge_example_network ''F'' [[''A'', ''B'']] = Inr [[''A'', ''B'', ''F'']]
   \<and> merge_layer example_network ''C'' [[''A''], [''B'', ''F'']] = Inr [[''A''], [''B'', ''F''], [''C'']]
   \<and> merge_layer example_network ''F'' [[''A''], [''B'']] = Inr [[''A''], [''B'', ''F'']]
   \<and> merge_layers example_network [''A'', ''B'', ''F'', ''C''] []
       = Inr [[''A''], [''B'', ''F''], [''C'']]
   \<and> merge_layers fan_network (layers fan_network) [] = Inr [[''A''], [''B''], [''C''], [''D'']]
   \<and> set (concat [[''A''], [''B''], [''C''], [''D'']]) = set (layers fan_network)
   \<and> distinct (concat [[''A''], [''B''], [''C''], [''D'']])"
proof -
  have hab: "[] \<notin> set [[''A'', ''B'']]" by simp
  have 1: "merge_layer merge_example_network ''F'' [[''A'', ''B'']]
             = Inr ([[''A'', ''B'']][0 := [''A'', ''B'', ''F'']])"
    using merge_layer_spec[OF hab, of merge_example_network "''F''",
            THEN conjunct2, THEN conjunct2, THEN conjunct1]
    by (simp add: merge_example_network_def)
  have hbf: "[] \<notin> set [[''A''], [''B'', ''F'']]" by simp
  have 2: "merge_layer example_network ''C'' [[''A''], [''B'', ''F'']]
             = Inr ([[''A''], [''B'', ''F'']] @ [[''C'']])"
    using merge_layer_spec[OF hbf, of example_network "''C''", THEN conjunct1]
    by (simp add: example_network_def)
  have nc: "\<not> is_conv_layer example_network ''F'' \<and> prev_layers example_network ''F'' \<noteq> []"
    by (simp add: example_network_def)
  have e: "1 < length [[''A''], [''B'']] \<and> eligible example_network ''F'' ([[''A''], [''B'']] ! 1)
           \<and> (\<forall>j. 1 < j \<and> j < length [[''A''], [''B'']]
                  \<longrightarrow> \<not> eligible example_network ''F'' ([[''A''], [''B'']] ! j))"
    by (simp add: eligible_def example_network_def)
  have h: "[] \<notin> set [[''A''], [''B'']]" by simp
  have 3: "merge_layer example_network ''F'' [[''A''], [''B'']]
             = Inr ([[''A''], [''B'']][1 := [[''A''], [''B'']] ! 1 @ [''F'']])"
    using merge_layer_spec[OF h, of example_network "''F''", THEN conjunct2, THEN conjunct1]
      nc e by blast
  have h0: "[] \<notin> set ([] :: string list list)" by simp
  note t = merge_layer_spec[OF h0, of example_network "''A''"]
  note nil = t[THEN conjunct2, THEN conjunct2, THEN conjunct2, THEN conjunct2, THEN conjunct1]
  note snoc = t[THEN conjunct2, THEN conjunct2, THEN conjunct2, THEN conjunct2, THEN conjunct2,
                THEN conjunct1, rule_format]
  have ca: "merge_layer example_network ''A'' [] = Inr ([] @ [[''A'']])"
    using t[THEN conjunct1] by (simp add: example_network_def)
  have ha: "[] \<notin> set [[''A'']]" by simp
  have cb: "merge_layer example_network ''B'' [[''A'']] = Inr ([[''A'']] @ [[''B'']])"
    using merge_layer_spec[OF ha, of example_network "''B''", THEN conjunct1]
    by (simp add: example_network_def)
  have l1: "merge_layers example_network [''A''] [] = Inr [[''A'']]"
    using snoc[of "[]" "''A''"] nil ca by simp
  have l2: "merge_layers example_network [''A'', ''B''] [] = Inr [[''A''], [''B'']]"
    using snoc[of "[''A'']" "''B''"] l1 cb by simp
  have l3: "merge_layers example_network [''A'', ''B'', ''F''] [] = Inr [[''A''], [''B'', ''F'']]"
    using snoc[of "[''A'', ''B'']" "''F''"] l2 3 by simp
  have l4: "merge_layers example_network [''A'', ''B'', ''F'', ''C''] []
              = Inr [[''A''], [''B'', ''F''], [''C'']]"
    using snoc[of "[''A'', ''B'', ''F'']" "''C''"] l3 2 by simp
  have f: "merge_layers fan_network (layers fan_network) []
       = Inr [[''A''], [''B''], [''C''], [''D'']]"
    by code_simp
  note tf = merge_layer_spec[OF h0, of fan_network "''A''"]
  note fin = tf[THEN conjunct2, THEN conjunct2, THEN conjunct2, THEN conjunct2, THEN conjunct2,
                THEN conjunct2, THEN conjunct2, rule_format, OF f]
  have dl: "distinct (layers fan_network)" by (simp add: fan_network_def)
  have s: "set (concat [[''A''], [''B''], [''C''], [''D'']]) = set (layers fan_network)"
    using fin by (rule conjunct1)
  have d: "distinct (concat [[''A''], [''B''], [''C''], [''D'']])"
    using fin dl by blast
  from 1 2 3 l4 f s d show ?thesis by simp
qed


section \<open>Segment generation and duplicates\<close>

text \<open>The constructor builds the example pipeline for the example network.\<close>

lemma example_merge_layers:
  "merge_layers example_network (layers example_network) [] = Inr [[''A''], [''B'', ''F''], [''C'']]"
  by code_simp

lemma example_topological_order:
  "topological_order example_network [[''A''], [''B'', ''F''], [''C'']]
     = Inr [[''A''], [''B'', ''F''], [''C'']]"
  by code_simp

lemma example_vertex_dict:
  "vertex_dict_vertices 0 [[''A''], [''B'', ''F''], [''C'']] Map.empty
     = Inr [''A'' \<mapsto> 0, ''B'' \<mapsto> 1, ''F'' \<mapsto> 1, ''C'' \<mapsto> 2]"
  by simp

lemma example_adjacency:
  "adjacency example_network [''A'' \<mapsto> 0, ''B'' \<mapsto> 1, ''F'' \<mapsto> 1, ''C'' \<mapsto> 2]
     (layers example_network) (\<lambda>vidx. [], \<lambda>vidx. [])
   = Inr ((\<lambda>vidx. [])(0 := [- 1], 1 := [0], 2 := [1]), (\<lambda>vidx. [])(0 := [1], 1 := [2]))"
  by (simp add: example_network_def dag_input_vertex_def)

lemma example_pipeline_init:
  "init (Network_Instance example_network) 1 (Resource_Instance ()) (1 / 20) = Inr example_pipeline"
  unfolding init_def calc_sched_dag_def
  by (simp add: example_merge_layers example_topological_order example_vertex_dict
        example_adjacency)
     (auto simp: example_pipeline_def example_network_def dag_input_vertex_def fun_eq_iff)

lemma fan_merge_layers:
  "merge_layers fan_network (layers fan_network) [] = Inr [[''A''], [''B''], [''C''], [''D'']]"
  by code_simp

lemma fan_topological_order:
  "topological_order fan_network [[''A''], [''B''], [''C''], [''D'']]
     = Inr [[''A''], [''B''], [''C''], [''D'']]"
  by code_simp

lemma fan_vertex_dict:
  "vertex_dict_vertices 0 [[''A''], [''B''], [''C''], [''D'']] Map.empty
     = Inr [''A'' \<mapsto> 0, ''B'' \<mapsto> 1, ''C'' \<mapsto> 2, ''D'' \<mapsto> 3]"
  by simp

lemma fan_adjacency:
  "adjacency fan_network [''A'' \<mapsto> 0, ''B'' \<mapsto> 1, ''C'' \<mapsto> 2, ''D'' \<mapsto> 3]
     (layers fan_network) (\<lambda>vidx. [], \<lambda>vidx. [])
   = Inr ((\<lambda>vidx. [])(0 := [- 1], 1 := [0], 2 := [0], 3 := [0]), (\<lambda>vidx. [])(0 := [3, 2, 1]))"
  by (simp add: fan_network_def dag_input_vertex_def)

lemma fan_pipeline_init:
  "init (Network_Instance fan_network) 1 (Resource_Instance ()) (1 / 20) = Inr fan_pipeline"
  unfolding init_def calc_sched_dag_def
  by (simp add: fan_merge_layers fan_topological_order fan_vertex_dict fan_adjacency)
     (auto simp: fan_pipeline_def fan_network_def dag_input_vertex_def fun_eq_iff)


lemma gen_single_layers_prefix:
  "gen_single_layers V P ls = (ys, st) \<Longrightarrow>
     (\<exists>n\<le>length ls. ys = map (\<lambda>l. [[l]]) (take n ls)) \<and> (st = None \<longrightarrow> ys = map (\<lambda>l. [[l]]) ls)"
proof (induction ls arbitrary: ys st)
  case Nil
  then show ?case by simp
next
  case (Cons l ls)
  show ?case
  proof (cases "segment_valid V P [[l]]")
    case False
    with Cons.prems show ?thesis by auto
  next
    case True
    obtain ys' st' where r: "gen_single_layers V P ls = (ys', st')" by (cases "gen_single_layers V P ls")
    from Cons.IH[OF r] obtain n where n: "n \<le> length ls" "ys' = map (\<lambda>l. [[l]]) (take n ls)"
      and full: "st' = None \<longrightarrow> ys' = map (\<lambda>l. [[l]]) ls"
      by blast
    from Cons.prems True r have ys: "ys = [[l]] # ys'" "st = st'" by simp_all
    have "ys = map (\<lambda>l. [[l]]) (take (Suc n) (l # ls))" using ys n by simp
    moreover have "Suc n \<le> length (l # ls)" using n by simp
    ultimately show ?thesis using full ys by (intro conjI exI[of _ "Suc n"]) simp_all
  qed
qed

lemma distinct_concat_map:
  "distinct xs \<Longrightarrow> (\<And>x. x \<in> set xs \<Longrightarrow> distinct (f x))
     \<Longrightarrow> (\<And>x y. x \<in> set xs \<Longrightarrow> y \<in> set xs \<Longrightarrow> x \<noteq> y \<Longrightarrow> set (f x) \<inter> set (f y) = {})
     \<Longrightarrow> distinct (concat (map f xs))"
proof (induction xs)
  case Nil
  then show ?case by simp
next
  case (Cons x xs)
  have "distinct (concat (map f xs))"
    by (rule Cons.IH) (use Cons.prems in auto)
  moreover have "distinct (f x)" using Cons.prems(2) by simp
  moreover have "set (f x) \<inter> set (f y) = {}" if "y \<in> set xs" for y
    using Cons.prems(1) Cons.prems(3)[of x y] that by auto
  ultimately show ?case by auto
qed

lemma seg_cands_distinct: "distinct (seg_cands P opts vs)"
  by (simp add: seg_cands_def Let_def)

lemma seg_cands_layers:
  "seg \<in> set (seg_cands P opts vs) \<Longrightarrow>
     set (concat seg) = (\<Union>i\<in>set vs. set (dag_vertex_list P ! nat i))"
  by (auto simp: seg_cands_def Let_def spatial_seg_def temporal_seg_def split: if_splits)

lemma distinct_concat_nth_disjoint:
  "distinct (concat xss) \<Longrightarrow> i < j \<Longrightarrow> j < length xss \<Longrightarrow> set (xss ! i) \<inter> set (xss ! j) = {}"
proof (induction xss arbitrary: i j)
  case Nil
  then show ?case by simp
next
  case (Cons a xss)
  obtain j' where j': "j = Suc j'" using Cons.prems(2) by (cases j) auto
  show ?case
  proof (cases i)
    case 0
    have "xss ! j' \<in> set xss" using Cons.prems(3) j' by simp
    then have "set (xss ! j') \<subseteq> set (concat xss)" by auto
    moreover have "set a \<inter> set (concat xss) = {}" using Cons.prems(1) by simp
    ultimately show ?thesis using 0 j' by auto
  next
    case (Suc i')
    then show ?thesis using Cons.IH[of i' j'] Cons.prems j' by simp
  qed
qed

lemma distinct_concat_nth_eq:
  assumes "distinct (concat xss)" "i < length xss" "j < length xss"
    "x \<in> set (xss ! i)" "x \<in> set (xss ! j)"
  shows "i = j"
proof (rule ccontr)
  assume "i \<noteq> j"
  then consider "i < j" | "j < i" by linarith
  then show False
    using distinct_concat_nth_disjoint[OF assms(1), of i j]
          distinct_concat_nth_disjoint[OF assms(1), of j i] assms(2-5)
    by cases auto
qed


lemma run_layers_subset:
  assumes "distinct (concat vl)" "[] \<notin> set vl"
    "0 \<le> s1" "e1 < int (length vl)" "0 \<le> s2" "e2 < int (length vl)"
    "(\<Union>i\<in>{s1..e1}. set (vl ! nat i)) \<subseteq> (\<Union>i\<in>{s2..e2}. set (vl ! nat i))"
  shows "{s1..e1} \<subseteq> {s2..e2}"
proof
  fix i assume i: "i \<in> {s1..e1}"
  then have il: "nat i < length vl" "0 \<le> i" using assms(3,4) by auto
  then have "vl ! nat i \<noteq> []" using assms(2) by (metis nth_mem)
  then obtain x where x: "x \<in> set (vl ! nat i)" by (cases "vl ! nat i") auto
  then have "x \<in> (\<Union>i\<in>{s2..e2}. set (vl ! nat i))" using assms(7) i by blast
  then obtain j where j: "j \<in> {s2..e2}" "x \<in> set (vl ! nat j)" by blast
  then have jl: "nat j < length vl" "0 \<le> j" using assms(5,6) by auto
  have "nat i = nat j" by (rule distinct_concat_nth_eq[OF assms(1) il(1) jl(1) x j(2)])
  then have "i = j" using il(2) jl(2) by simp
  then show "i \<in> {s2..e2}" using j(1) by simp
qed

lemma seg_cands_disjoint:
  assumes "distinct (concat (dag_vertex_list P))" "[] \<notin> set (dag_vertex_list P)"
    "grown_vseg P 0 vs1" "grown_vseg P 0 vs2" "vs1 \<noteq> vs2"
  shows "set (seg_cands P opts vs1) \<inter> set (seg_cands P opts vs2) = {}"
proof (rule ccontr)
  assume "set (seg_cands P opts vs1) \<inter> set (seg_cands P opts vs2) \<noteq> {}"
  then obtain seg where seg: "seg \<in> set (seg_cands P opts vs1)" "seg \<in> set (seg_cands P opts vs2)"
    by blast
  from assms(3) obtain s1 e1 where r1: "0 \<le> s1" "s1 \<le> e1" "e1 < int (length (dag_vertex_list P))"
      "vs1 = [s1..e1]"
    unfolding grown_vseg_def by blast
  from assms(4) obtain s2 e2 where r2: "0 \<le> s2" "s2 \<le> e2" "e2 < int (length (dag_vertex_list P))"
      "vs2 = [s2..e2]"
    unfolding grown_vseg_def by blast
  have eq: "(\<Union>i\<in>{s1..e1}. set (dag_vertex_list P ! nat i))
              = (\<Union>i\<in>{s2..e2}. set (dag_vertex_list P ! nat i))"
    using seg_cands_layers[OF seg(1)] seg_cands_layers[OF seg(2)] r1(4) r2(4) by simp
  have "{s1..e1} \<subseteq> {s2..e2}"
    by (rule run_layers_subset[OF assms(1,2) r1(1,3) r2(1,3)]) (simp add: eq)
  moreover have "{s2..e2} \<subseteq> {s1..e1}"
    by (rule run_layers_subset[OF assms(1,2) r2(1,3) r1(1,3)]) (simp add: eq)
  ultimately have "{s1..e1} = {s2..e2}" by blast
  then have "s1 = s2 \<and> e1 = e2" using r1(2) r2(2) by simp
  then show False using assms(5) r1(4) r2(4) by simp
qed

lemma gen_vseg_candidates_distinct:
  assumes "next_increasing P" "distinct (concat (dag_vertex_list P))" "[] \<notin> set (dag_vertex_list P)"
  shows "distinct (concat (map (\<lambda>vseg. filter (segment_valid V P) (seg_cands P opts vseg))
                             (fst (gen_vseg P 0 {} memo))))"
proof -
  from gen_vseg_exact[OF assms(1), of 0 "{}" memo] obtain ys memo' where
    ys: "gen_vseg P 0 {} memo = (ys, memo', None)" "distinct ys" "set ys = {vs. grown_vseg P 0 vs}"
    by auto
  have "distinct (concat (map (\<lambda>vseg. filter (segment_valid V P) (seg_cands P opts vseg)) ys))"
  proof (rule distinct_concat_map[OF ys(2)])
    fix x assume "x \<in> set ys"
    show "distinct (filter (segment_valid V P) (seg_cands P opts x))"
      by (simp add: seg_cands_distinct)
  next
    fix x y assume "x \<in> set ys" "y \<in> set ys" "x \<noteq> y"
    then have "set (seg_cands P opts x) \<inter> set (seg_cands P opts y) = {}"
      using seg_cands_disjoint[OF assms(2,3)] ys(3) by blast
    then show "set (filter (segment_valid V P) (seg_cands P opts x))
                 \<inter> set (filter (segment_valid V P) (seg_cands P opts y)) = {}"
      by auto
  qed
  then show ?thesis by (simp add: ys(1))
qed

lemma gen_segment_distinct_within_phases_dag:
  assumes "next_increasing P" "distinct (concat (dag_vertex_list P))"
    "[] \<notin> set (dag_vertex_list P)" "distinct (layers (network P))"
  shows "\<exists>singles cands. fst (gen_segment V P opts) = singles @ cands
           \<and> distinct singles \<and> distinct cands
           \<and> (\<exists>n\<le>length (layers (network P)).
                 singles = map (\<lambda>l. [[l]]) (take n (layers (network P))))
           \<and> cands = (if snd (gen_single_layers V P (layers (network P))) = None
                      then concat (map (\<lambda>vseg. filter (segment_valid V P) (seg_cands P opts vseg))
                                       (fst (gen_vseg P 0 {} (seg_vertex_done P))))
                      else [])"
proof -
  obtain ys st where g: "gen_single_layers V P (layers (network P)) = (ys, st)"
    by (cases "gen_single_layers V P (layers (network P))")
  from gen_single_layers_prefix[OF g] obtain n where
    n: "n \<le> length (layers (network P))" "ys = map (\<lambda>l. [[l]]) (take n (layers (network P)))"
    by blast
  have "distinct (take n (layers (network P)))" using assms(4) by simp
  then have dy: "distinct ys" unfolding n(2) by (simp add: distinct_map inj_on_def)
  let ?c = "concat (map (\<lambda>vseg. filter (segment_valid V P) (seg_cands P opts vseg))
                        (fst (gen_vseg P 0 {} (seg_vertex_done P))))"
  have dc: "distinct ?c" by (rule gen_vseg_candidates_distinct[OF assms(1-3)])
  show ?thesis
  proof (cases st)
    case None
    then have "fst (gen_segment V P opts) = ys @ ?c"
      using g by (simp add: gen_segment_def split: prod.splits)
    then show ?thesis using dy dc n g None by (intro exI[of _ ys] exI[of _ ?c]) auto
  next
    case (Some e)
    then have "fst (gen_segment V P opts) = ys @ []"
      using g by (simp add: gen_segment_def)
    then show ?thesis using dy n g Some by (intro exI[of _ ys] exI[of _ "[]"]) auto
  qed
qed

lemma example_vertices:
  "distinct (concat (dag_vertex_list example_pipeline))" "[] \<notin> set (dag_vertex_list example_pipeline)"
  "distinct (layers (network example_pipeline))"
  by (simp_all add: example_pipeline_def example_network_def)

section \<open>Properties of the topological sorter and of the constructor\<close>

text \<open>
  The vertex graph that \<^verbatim>\<open>_dfs\<close> follows: \<open>vedge N u w\<close> holds when a layer of \<open>u\<close> has a
  next layer in \<open>w\<close> that is not in \<open>u\<close>. \<open>post_closed\<close> says of the list \<^verbatim>\<open>visited\<close> that
  every vertex in it stands after all the vertices it has an edge to; \<open>dfs_inv\<close> is the
  invariant of the search: \<^verbatim>\<open>unseen\<close>, \<^verbatim>\<open>seen\<close> and \<^verbatim>\<open>visited\<close> partition the vertex set
  \<open>U\<close>, and \<^verbatim>\<open>visited\<close> has no repetition and is closed in this sense.
\<close>

definition vedge :: "'l network \<Rightarrow> 'l list \<Rightarrow> 'l list \<Rightarrow> bool" where
  "vedge N u w \<longleftrightarrow> (\<exists>l\<in>set u. \<exists>nl\<in>set w. Some nl \<in> set (next_layers N l) \<and> nl \<notin> set u)"

definition vertex_edges :: "'l network \<Rightarrow> 'l list set \<Rightarrow> ('l list \<times> 'l list) set" where
  "vertex_edges N U = {(u, w). u \<in> U \<and> w \<in> U \<and> vedge N u w}"

definition post_closed :: "'l network \<Rightarrow> 'l list set \<Rightarrow> 'l list list \<Rightarrow> bool" where
  "post_closed N U xs \<longleftrightarrow> (\<forall>i<length xs. \<forall>w\<in>U. vedge N (xs ! i) w \<longrightarrow> w \<in> set (take i xs))"

definition dfs_inv :: "'l network \<Rightarrow> 'l list set \<Rightarrow> 'l dfs_state \<Rightarrow> bool" where
  "dfs_inv N U st \<longleftrightarrow>
     set (unseen st) \<inter> seen st = {} \<and> set (unseen st) \<inter> set (visited st) = {}
     \<and> seen st \<inter> set (visited st) = {} \<and> distinct (visited st)
     \<and> set (unseen st) \<union> seen st \<union> set (visited st) = U
     \<and> post_closed N U (visited st)"

lemma set_next_layers_inner:
  "set (fold (\<lambda>nl acc. case nl of None \<Rightarrow> acc
                | Some n \<Rightarrow> if n \<notin> set vertex \<and> n \<notin> set acc then acc @ [n] else acc) nls acc)
     = set acc \<union> {n. Some n \<in> set nls \<and> n \<notin> set vertex}"
  by (induction nls arbitrary: acc) (auto split: option.splits)

lemma set_next_layers_outer:
  "set (fold (\<lambda>l acc. fold (\<lambda>nl acc. case nl of None \<Rightarrow> acc
                | Some n \<Rightarrow> if n \<notin> set vertex \<and> n \<notin> set acc then acc @ [n] else acc)
                (next_layers N l) acc) ls acc)
     = set acc \<union> {n. \<exists>l\<in>set ls. Some n \<in> set (next_layers N l) \<and> n \<notin> set vertex}"
proof (induction ls arbitrary: acc)
  case Nil
  then show ?case by simp
next
  case (Cons l ls)
  show ?case
    unfolding fold_Cons comp_apply Cons.IH set_next_layers_inner by auto
qed

lemma set_dfs_next_layers:
  "set (dfs_next_layers N v) = {n. \<exists>l\<in>set v. Some n \<in> set (next_layers N l) \<and> n \<notin> set v}"
  unfolding dfs_next_layers_def set_next_layers_outer by simp

lemma set_dfs_next_vertices:
  "set (dfs_next_vertices uns (dfs_next_layers N v)) = {w \<in> set uns. vedge N v w}"
  unfolding dfs_next_vertices_def vedge_def
  by (auto simp: set_dfs_next_layers)

lemma post_closed_snoc:
  assumes "post_closed N U xs" "\<forall>w\<in>U. vedge N v w \<longrightarrow> w \<in> set xs"
  shows "post_closed N U (xs @ [v])"
  unfolding post_closed_def
proof (intro allI impI ballI)
  fix i w assume i: "i < length (xs @ [v])" and w: "w \<in> U" "vedge N ((xs @ [v]) ! i) w"
  show "w \<in> set (take i (xs @ [v]))"
  proof (cases "i < length xs")
    case True
    then show ?thesis using assms(1) w by (auto simp: post_closed_def nth_append)
  next
    case False
    then have "i = length xs" using i by simp
    then show ?thesis using assms(2) w by simp
  qed
qed

lemma vedge_irrefl: "\<not> vedge N v v"
  by (auto simp: vedge_def)

lemma dfs_dfs_list_correct:
  "dfs N v st = Inr st' \<Longrightarrow> acyclic (vertex_edges N U) \<Longrightarrow> dfs_inv N U st \<Longrightarrow> v \<in> U
     \<Longrightarrow> \<forall>s\<in>seen st. (s, v) \<in> (vertex_edges N U)\<^sup>+
     \<Longrightarrow> dfs_inv N U st' \<and> seen st' = seen st \<and> v \<in> set (visited st')
         \<and> set (visited st) \<subseteq> set (visited st')"
  "dfs_list N vs st = Inr st' \<Longrightarrow> acyclic (vertex_edges N U) \<Longrightarrow> dfs_inv N U st \<Longrightarrow> set vs \<subseteq> U
     \<Longrightarrow> \<forall>v\<in>set vs. \<forall>s\<in>seen st. (s, v) \<in> (vertex_edges N U)\<^sup>+
     \<Longrightarrow> dfs_inv N U st' \<and> seen st' = seen st \<and> set vs \<subseteq> set (visited st')
         \<and> set (visited st) \<subseteq> set (visited st')"
proof (induction N v st and N vs st arbitrary: st' and st' rule: dfs_dfs_list.induct)
  case (1 N vertex st)
  let ?R = "vertex_edges N U"
  define st1 where "st1 = st\<lparr>unseen := removeAll vertex (unseen st), seen := insert vertex (seen st)\<rparr>"
  define nvs where "nvs = dfs_next_vertices (unseen st1) (dfs_next_layers N vertex)"
  have fresh: "\<not> (vertex \<in> seen st \<or> vertex \<in> set (visited st))"
    using "1.prems"(1) by (auto split: if_splits)
  then have nv: "vertex \<notin> seen st" "vertex \<notin> set (visited st)" by simp_all
  from "1.prems"(1) fresh obtain st2 where
    l: "dfs_list N nvs st1 = Inr st2"
    and inseen: "vertex \<in> seen st2"
    and r: "st' = st2\<lparr>visited := visited st2 @ [vertex], seen := seen st2 - {vertex}\<rparr>"
    unfolding st1_def nvs_def
    by (auto simp: Let_def split: if_splits sum.splits)
  note inv = "1.prems"(3)[unfolded dfs_inv_def]
  have inv1: "dfs_inv N U st1"
    using inv nv "1.prems"(4) unfolding dfs_inv_def st1_def by auto
  have nvs_set: "set nvs = {w \<in> set (unseen st1). vedge N vertex w}"
    unfolding nvs_def by (rule set_dfs_next_vertices)
  have nvs_U: "set nvs \<subseteq> U"
    using inv1 nvs_set unfolding dfs_inv_def by auto
  have path: "\<forall>w\<in>set nvs. \<forall>s\<in>seen st1. (s, w) \<in> ?R\<^sup>+"
  proof (intro ballI)
    fix w s assume w: "w \<in> set nvs" and s: "s \<in> seen st1"
    have e: "(vertex, w) \<in> ?R"
      using w nvs_set nvs_U "1.prems"(4) by (auto simp: vertex_edges_def)
    show "(s, w) \<in> ?R\<^sup>+"
    proof (cases "s = vertex")
      case True
      then show ?thesis using e by auto
    next
      case False
      then have "s \<in> seen st" using s by (simp add: st1_def)
      then have "(s, vertex) \<in> ?R\<^sup>+" using "1.prems"(5) by blast
      then show ?thesis using e by (rule trancl_into_trancl)
    qed
  qed
  from "1.IH"[OF fresh st1_def nvs_def l "1.prems"(2) inv1 nvs_U path]
  have inv2: "dfs_inv N U st2" and seen2: "seen st2 = seen st1"
    and vis2: "set nvs \<subseteq> set (visited st2)" and mono2: "set (visited st1) \<subseteq> set (visited st2)"
    by simp_all
  note i2 = inv2[unfolded dfs_inv_def]
  have v_not_vis2: "vertex \<notin> set (visited st2)" using i2 inseen by auto
  have closed: "\<forall>w\<in>U. vedge N vertex w \<longrightarrow> w \<in> set (visited st2)"
  proof (intro ballI impI)
    fix w assume w: "w \<in> U" "vedge N vertex w"
    have "w \<in> set (unseen st1) \<union> seen st1 \<union> set (visited st1)"
      using inv1 w(1) unfolding dfs_inv_def by blast
    then consider "w \<in> set (unseen st1)" | "w \<in> seen st1" | "w \<in> set (visited st1)" by blast
    then show "w \<in> set (visited st2)"
    proof cases
      case 1
      then have "w \<in> set nvs" using nvs_set w(2) by simp
      then show ?thesis using vis2 by blast
    next
      case 2
      have "w \<noteq> vertex" using w(2) vedge_irrefl by auto
      then have "w \<in> seen st" using 2 by (simp add: st1_def)
      then have "(w, vertex) \<in> ?R\<^sup>+" using "1.prems"(5) by blast
      moreover have "(vertex, w) \<in> ?R" using w "1.prems"(4) by (simp add: vertex_edges_def)
      ultimately have "(w, w) \<in> ?R\<^sup>+" by (rule trancl_into_trancl)
      then show ?thesis using "1.prems"(2) by (simp add: acyclic_def)
    next
      case 3
      then show ?thesis using mono2 by blast
    qed
  qed
  have pc: "post_closed N U (visited st2 @ [vertex])"
    by (rule post_closed_snoc) (use i2 closed in simp_all)
  have "dfs_inv N U st'"
    unfolding dfs_inv_def r using i2 pc v_not_vis2 inseen by auto
  moreover have "seen st' = seen st"
    using r seen2 nv(1) by (simp add: st1_def)
  moreover have "vertex \<in> set (visited st')" using r by simp
  moreover have "set (visited st) \<subseteq> set (visited st')"
    using r mono2 by (auto simp: st1_def)
  ultimately show ?case by simp
next
  case (2 N st)
  then show ?case by simp
next
  case (3 N nv nvs st)
  from "3.prems"(1) obtain st1 where
    a: "dfs N nv st = Inr st1" and b: "dfs_list N nvs st1 = Inr st'"
    by (auto split: sum.splits)
  have "dfs_inv N U st1 \<and> seen st1 = seen st \<and> nv \<in> set (visited st1)
          \<and> set (visited st) \<subseteq> set (visited st1)"
    by (rule "3.IH"(1)[OF a "3.prems"(2,3)]) (use "3.prems"(4,5) in simp_all)
  then have s1: "dfs_inv N U st1" "seen st1 = seen st" "nv \<in> set (visited st1)"
      "set (visited st) \<subseteq> set (visited st1)"
    by simp_all
  have "dfs_inv N U st' \<and> seen st' = seen st1 \<and> set nvs \<subseteq> set (visited st')
          \<and> set (visited st1) \<subseteq> set (visited st')"
    by (rule "3.IH"(2)[OF a b "3.prems"(2) s1(1)]) (use "3.prems"(4,5) s1(2) in simp_all)
  then show ?case using s1 by auto
qed

definition precedes :: "'a \<Rightarrow> 'a \<Rightarrow> 'a list \<Rightarrow> bool" where
  "precedes x y L \<longleftrightarrow> (\<exists>i j. i < j \<and> j < length L \<and> L ! i = x \<and> L ! j = y)"

lemma precedes_rev:
  assumes "i < j" "j < length xs" "xs ! i = y" "xs ! j = x"
  shows "precedes x y (rev xs)"
  unfolding precedes_def
proof (intro exI conjI)
  show "length xs - Suc j < length xs - Suc i" using assms(1,2) by simp
  show "length xs - Suc i < length (rev xs)" using assms(1,2) by simp
  show "rev xs ! (length xs - Suc j) = x" using assms by (simp add: rev_nth)
  show "rev xs ! (length xs - Suc i) = y" using assms by (simp add: rev_nth)
qed

lemma topological_order_correct:
  assumes "topological_order N vs = Inr vl" "acyclic (vertex_edges N (set vs))"
  shows "set vl = set vs \<and> distinct vl
         \<and> (\<forall>u w. (u, w) \<in> vertex_edges N (set vs) \<longrightarrow> precedes u w vl)"
proof -
  let ?U = "set vs"
  define st0 where "st0 = \<lparr>visited = [], unseen = remdups vs, seen = {} :: 'a list set\<rparr>"
  from assms(1) obtain st where
    d: "dfs_list N (start_vertices N (unseen st0)) st0 = Inr st"
    and u: "unseen st = []" and vl: "vl = rev (visited st)"
    unfolding topological_order_def st0_def
    by (auto simp: Let_def split: sum.splits if_splits)
  have inv0: "dfs_inv N ?U st0"
    by (simp add: dfs_inv_def st0_def post_closed_def)
  have sub: "set (start_vertices N (unseen st0)) \<subseteq> ?U"
    by (auto simp: start_vertices_def st0_def)
  have "dfs_inv N ?U st \<and> seen st = seen st0
          \<and> set (start_vertices N (unseen st0)) \<subseteq> set (visited st)
          \<and> set (visited st0) \<subseteq> set (visited st)"
    by (rule dfs_dfs_list_correct(2)[OF d assms(2) inv0 sub]) (simp add: st0_def)
  then have inv: "dfs_inv N ?U st" and seen: "seen st = {}" by (simp_all add: st0_def)
  note i = inv[unfolded dfs_inv_def]
  have set_eq: "set (visited st) = ?U" using i u seen by simp
  have dist: "distinct (visited st)" using i by simp
  have pc: "post_closed N ?U (visited st)" using i by simp
  have order: "precedes a w vl" if e: "(a, w) \<in> vertex_edges N ?U" for a w
  proof -
    from e have a: "a \<in> ?U" and w: "w \<in> ?U" and ve: "vedge N a w"
      by (simp_all add: vertex_edges_def)
    from a set_eq obtain k where k: "k < length (visited st)" "visited st ! k = a"
      by (metis in_set_conv_nth)
    from pc k w ve have "w \<in> set (take k (visited st))" unfolding post_closed_def by blast
    then obtain m where m: "m < length (take k (visited st))" "take k (visited st) ! m = w"
      by (metis in_set_conv_nth)
    then have m': "m < k" "visited st ! m = w" using k(1) by simp_all
    show ?thesis unfolding vl by (rule precedes_rev[OF m'(1) k(1) m'(2) k(2)])
  qed
  show ?thesis using set_eq dist order by (simp add: vl)
qed

definition chain_ok :: "'l network \<Rightarrow> 'l list \<Rightarrow> bool" where
  "chain_ok N v \<longleftrightarrow>
     (\<forall>k. Suc k < length v \<longrightarrow>
        Some (v ! k) \<in> set (prev_layers N (v ! Suc k)) \<and> length (next_layers N (v ! k)) = 1)"


lemma chain_ok_snoc:
  assumes "chain_ok N v" "v \<noteq> []" "eligible N l v"
  shows "chain_ok N (v @ [l])"
  unfolding chain_ok_def
proof (intro allI impI)
  fix k assume k: "Suc k < length (v @ [l])"
  show "Some ((v @ [l]) ! k) \<in> set (prev_layers N ((v @ [l]) ! Suc k))
        \<and> length (next_layers N ((v @ [l]) ! k)) = 1"
  proof (cases "Suc k < length v")
    case True
    then show ?thesis using assms(1) by (simp add: chain_ok_def nth_append)
  next
    case False
    then have kl: "Suc k = length v" using k by simp
    then have k': "k = length v - 1" by simp
    have "(v @ [l]) ! k = last v" "(v @ [l]) ! Suc k = l"
      using assms(2) kl by (simp_all add: nth_append last_conv_nth k')
    then show ?thesis using assms(3) by (simp add: eligible_def)
  qed
qed

lemma merge_layer_invariants:
  assumes "merge_layer N l vs = Inr vs'"
  shows "set (concat vs') = insert l (set (concat vs))"
    and "distinct (concat vs) \<Longrightarrow> l \<notin> set (concat vs) \<Longrightarrow> distinct (concat vs')"
    and "\<forall>v\<in>set vs. chain_ok N v \<Longrightarrow> \<forall>v\<in>set vs'. chain_ok N v"
proof -
  from merge_layer_cases[OF assms] consider
      (new) "vs' = vs @ [[l]]"
    | (app) A v B where "vs = A @ v # B" "v \<noteq> []" "eligible N l v" "vs' = A @ (v @ [l]) # B"
    by blast
  note c = this
  show "set (concat vs') = insert l (set (concat vs))"
    by (rule c) auto
  show "distinct (concat vs')" if "distinct (concat vs)" "l \<notin> set (concat vs)"
    by (rule c) (use that in auto)
  show "\<forall>v\<in>set vs'. chain_ok N v" if a: "\<forall>v\<in>set vs. chain_ok N v"
  proof (rule c)
    assume "vs' = vs @ [[l]]"
    then show ?thesis using a by (auto simp: chain_ok_def)
  next
    fix A v B assume h: "vs = A @ v # B" "v \<noteq> []" "eligible N l v" "vs' = A @ (v @ [l]) # B"
    have "chain_ok N (v @ [l])" by (rule chain_ok_snoc) (use a h in auto)
    then show ?thesis using a h by auto
  qed
qed

lemma merge_layers_invariants:
  "merge_layers N ls vs = Inr vs' \<Longrightarrow> distinct (concat vs @ ls) \<Longrightarrow> \<forall>v\<in>set vs. chain_ok N v
     \<Longrightarrow> set (concat vs') = set (concat vs) \<union> set ls \<and> distinct (concat vs')
         \<and> (\<forall>v\<in>set vs'. chain_ok N v)"
proof (induction ls arbitrary: vs)
  case Nil
  then show ?case by simp
next
  case (Cons l ls)
  from Cons.prems(1) obtain vs1 where
    a: "merge_layer N l vs = Inr vs1" and b: "merge_layers N ls vs1 = Inr vs'"
    by (auto split: sum.splits)
  note m = merge_layer_invariants[OF a]
  have s1: "set (concat vs1) = insert l (set (concat vs))" by (rule m(1))
  have d1: "distinct (concat vs1)" by (rule m(2)) (use Cons.prems(2) in auto)
  have c1: "\<forall>v\<in>set vs1. chain_ok N v" by (rule m(3)[OF Cons.prems(3)])
  have "distinct (concat vs1 @ ls)"
    using d1 s1 Cons.prems(2) by (auto simp del: set_concat)
  from Cons.IH[OF b this c1] show ?case using s1 by (auto simp del: set_concat)
qed

definition layer_edges :: "'l network \<Rightarrow> ('l \<times> 'l) set" where
  "layer_edges N = {(p, c). p \<in> set (layers N) \<and> c \<in> set (layers N) \<and> Some p \<in> set (prev_layers N c)}"

definition network_consistent :: "'l network \<Rightarrow> bool" where
  "network_consistent N \<longleftrightarrow>
     distinct (layers N)
     \<and> (\<forall>p\<in>set (layers N). \<forall>c\<in>set (layers N).
           Some c \<in> set (next_layers N p) \<longleftrightarrow> Some p \<in> set (prev_layers N c))"

lemma precedes_iff_split: "precedes x y L \<longleftrightarrow> (\<exists>A B C. L = A @ x # B @ y # C)"
proof
  assume "precedes x y L"
  then obtain i j where ij: "i < j" "j < length L" "L ! i = x" "L ! j = y"
    unfolding precedes_def by blast
  have 1: "L = take i L @ x # drop (Suc i) L"
    using ij by (metis id_take_nth_drop order_less_trans)
  have j': "j - Suc i < length (drop (Suc i) L)" using ij by simp
  have "drop (Suc i) L ! (j - Suc i) = y" using ij by simp
  then have 2: "drop (Suc i) L = take (j - Suc i) (drop (Suc i) L) @ y # drop (Suc (j - Suc i)) (drop (Suc i) L)"
    using id_take_nth_drop[OF j'] by simp
  show "\<exists>A B C. L = A @ x # B @ y # C"
    using 1 2 by metis
next
  assume "\<exists>A B C. L = A @ x # B @ y # C"
  then obtain A B C where L: "L = A @ x # B @ y # C" by blast
  show "precedes x y L"
    unfolding precedes_def
  proof (intro exI conjI)
    show "length A < length A + Suc (length B)" by simp
    show "length A + Suc (length B) < length L" by (simp add: L)
    show "L ! length A = x" by (simp add: L)
    show "L ! (length A + Suc (length B)) = y"
      by (simp add: L nth_append)
  qed
qed

lemma precedes_concat:
  assumes "precedes u w vl" "p \<in> set u" "c \<in> set w"
  shows "precedes p c (concat vl)"
proof -
  from assms(1) obtain A B C where vl: "vl = A @ u # B @ w # C"
    unfolding precedes_iff_split by blast
  from assms(2) obtain u1 u2 where u: "u = u1 @ p # u2" by (meson split_list)
  from assms(3) obtain w1 w2 where w: "w = w1 @ c # w2" by (meson split_list)
  have "concat vl = (concat A @ u1) @ p # (u2 @ concat B @ w1) @ c # (w2 @ concat C)"
    by (simp add: vl u w)
  then show ?thesis unfolding precedes_iff_split by blast
qed

lemma precedes_concat_same:
  assumes "u \<in> set vl" "precedes p c u"
  shows "precedes p c (concat vl)"
proof -
  from assms(1) obtain A B where vl: "vl = A @ u # B" by (meson split_list)
  from assms(2) obtain u1 u2 u3 where u: "u = u1 @ p # u2 @ c # u3"
    unfolding precedes_iff_split by blast
  have "concat vl = (concat A @ u1) @ p # u2 @ c # (u3 @ concat B)"
    by (simp add: vl u)
  then show ?thesis unfolding precedes_iff_split by blast
qed

lemma chain_path:
  assumes "chain_ok N v" "set v \<subseteq> set (layers N)"
  shows "a < b \<Longrightarrow> b < length v \<Longrightarrow> (v ! a, v ! b) \<in> (layer_edges N)\<^sup>+"
proof (induction b)
  case 0
  then show ?case by simp
next
  case (Suc b)
  have e: "(v ! b, v ! Suc b) \<in> layer_edges N"
    using assms Suc.prems(2) by (auto simp: chain_ok_def layer_edges_def)
  show ?case
  proof (cases "a = b")
    case True
    then show ?thesis using e by auto
  next
    case False
    then have "(v ! a, v ! b) \<in> (layer_edges N)\<^sup>+" using Suc by simp
    then show ?thesis using e by (rule trancl_into_trancl)
  qed
qed

lemma chain_to_last:
  assumes "chain_ok N v" "set v \<subseteq> set (layers N)" "x \<in> set v"
  shows "(x, last v) \<in> (layer_edges N)\<^sup>*"
proof -
  from assms(3) obtain a where a: "a < length v" "v ! a = x" by (metis in_set_conv_nth)
  have l: "last v = v ! (length v - 1)" using a(1) by (intro last_conv_nth) auto
  show ?thesis
  proof (cases "a = length v - 1")
    case True
    then show ?thesis using a l by simp
  next
    case False
    then have "(v ! a, v ! (length v - 1)) \<in> (layer_edges N)\<^sup>+"
      using a(1) by (intro chain_path[OF assms(1,2)]) auto
    then show ?thesis using a l by simp
  qed
qed

lemma chain_next:
  assumes "chain_ok N v" "set v \<subseteq> set (layers N)" "network_consistent N" "Suc k < length v"
  shows "next_layers N (v ! k) = [Some (v ! Suc k)]"
proof -
  have p: "Some (v ! k) \<in> set (prev_layers N (v ! Suc k))" and len: "length (next_layers N (v ! k)) = 1"
    using assms(1,4) by (simp_all add: chain_ok_def)
  have "v ! k \<in> set (layers N)" "v ! Suc k \<in> set (layers N)" using assms(2,4) by auto
  then have "Some (v ! Suc k) \<in> set (next_layers N (v ! k))"
    using assms(3) p unfolding network_consistent_def by blast
  with len show ?thesis by (cases "next_layers N (v ! k)") auto
qed

lemma vedge_from_tail:
  assumes "chain_ok N u" "set u \<subseteq> set (layers N)" "network_consistent N" "vedge N u w"
  shows "\<exists>nl\<in>set w. Some nl \<in> set (next_layers N (last u)) \<and> nl \<notin> set u"
proof -
  from assms(4) obtain l nl where l: "l \<in> set u" "nl \<in> set w" "Some nl \<in> set (next_layers N l)"
      "nl \<notin> set u"
    unfolding vedge_def by blast
  from l(1) obtain k where k: "k < length u" "u ! k = l" by (metis in_set_conv_nth)
  have "\<not> Suc k < length u"
  proof
    assume sk: "Suc k < length u"
    from chain_next[OF assms(1-3) sk] l(3) k(2) have "nl = u ! Suc k" by simp
    then show False using l(4) sk by simp
  qed
  then have "k = length u - 1" using k(1) by simp
  moreover have "u \<noteq> []" using l(1) by auto
  ultimately have "l = last u" using k(2) by (simp add: last_conv_nth)
  then show ?thesis using l by blast
qed

lemma vertex_edge_layer_path:
  assumes "network_consistent N" "\<forall>v\<in>U. chain_ok N v \<and> v \<noteq> [] \<and> set v \<subseteq> set (layers N)"
    "(u, w) \<in> vertex_edges N U"
  shows "(last u, last w) \<in> (layer_edges N)\<^sup>+"
proof -
  from assms(3) have u: "u \<in> U" and w: "w \<in> U" and ve: "vedge N u w"
    by (simp_all add: vertex_edges_def)
  have cu: "chain_ok N u" "u \<noteq> []" "set u \<subseteq> set (layers N)" using assms(2) u by simp_all
  have cw: "chain_ok N w" "set w \<subseteq> set (layers N)" using assms(2) w by simp_all
  from vedge_from_tail[OF cu(1,3) assms(1) ve] obtain nl where
    nl: "nl \<in> set w" "Some nl \<in> set (next_layers N (last u))"
    by blast
  have "last u \<in> set (layers N)" "nl \<in> set (layers N)" using cu cw nl(1) by auto
  then have "(last u, nl) \<in> layer_edges N"
    using assms(1) nl(2) unfolding network_consistent_def layer_edges_def by blast
  moreover have "(nl, last w) \<in> (layer_edges N)\<^sup>*" by (rule chain_to_last[OF cw nl(1)])
  ultimately show ?thesis by simp
qed

lemma vertex_edges_acyclic:
  assumes "network_consistent N" "\<forall>v\<in>U. chain_ok N v \<and> v \<noteq> [] \<and> set v \<subseteq> set (layers N)"
    "acyclic (layer_edges N)"
  shows "acyclic (vertex_edges N U)"
proof (rule acyclicI, rule allI)
  fix x
  have "(u, w) \<in> (vertex_edges N U)\<^sup>+ \<Longrightarrow> (last u, last w) \<in> (layer_edges N)\<^sup>+" for u w
  proof (induction rule: trancl_induct)
    case (base y)
    then show ?case by (rule vertex_edge_layer_path[OF assms(1,2)])
  next
    case (step y z)
    from vertex_edge_layer_path[OF assms(1,2) step.hyps(2)] step.IH show ?case by simp
  qed
  then show "(x, x) \<notin> (vertex_edges N U)\<^sup>+"
    using assms(3) unfolding acyclic_def by blast
qed

lemma distinct_concat_set_eq:
  assumes "distinct (concat vs)" "[] \<notin> set vs" "set vl = set vs" "distinct vl"
  shows "distinct (concat vl)"
proof -
  have "[] \<notin> set vl" using assms(2,3) by simp
  then have "removeAll [] vl = vl" by simp
  then show ?thesis
    using assms(1,3,4) by (simp add: distinct_concat_iff)
qed

lemma vertices_disjoint:
  assumes "distinct (concat vs)" "u \<in> set vs" "w \<in> set vs" "u \<noteq> w"
  shows "set u \<inter> set w = {}"
  using assms by (simp add: distinct_concat_iff)

lemma dag_vertices_correct:
  assumes m: "merge_layers N (layers N) [] = Inr vs"
    and t: "topological_order N vs = Inr vl"
    and nc: "network_consistent N" and ac: "acyclic (layer_edges N)"
  shows "distinct (concat vl)" "set (concat vl) = set (layers N)" "[] \<notin> set vl"
    "\<forall>v\<in>set vl. chain_ok N v"
    "\<And>u w. (u, w) \<in> vertex_edges N (set vl) \<Longrightarrow> precedes u w vl"
    "\<And>p c. (p, c) \<in> layer_edges N \<Longrightarrow> precedes p c (concat vl)"
proof -
  have dl: "distinct (layers N)" using nc by (simp add: network_consistent_def)
  have "set (concat vs) = set (concat []) \<union> set (layers N) \<and> distinct (concat vs)
          \<and> (\<forall>v\<in>set vs. chain_ok N v)"
    by (rule merge_layers_invariants[OF m]) (use dl in simp_all)
  then have sv: "set (concat vs) = set (layers N)" and dv: "distinct (concat vs)"
    and cv: "\<forall>v\<in>set vs. chain_ok N v"
    by simp_all
  have nv: "[] \<notin> set vs" by (rule merge_layers_nonempty[OF m]) simp
  have sub: "\<forall>v\<in>set vs. set v \<subseteq> set (layers N)" using sv by auto
  have props: "\<forall>v\<in>set vs. chain_ok N v \<and> v \<noteq> [] \<and> set v \<subseteq> set (layers N)"
    using cv nv sub by auto
  have av: "acyclic (vertex_edges N (set vs))"
    by (rule vertex_edges_acyclic[OF nc props ac])
  from topological_order_correct[OF t av] have
    se: "set vl = set vs" and dvl: "distinct vl"
    and ord: "\<And>u w. (u, w) \<in> vertex_edges N (set vs) \<Longrightarrow> precedes u w vl"
    by blast+
  show d: "distinct (concat vl)" by (rule distinct_concat_set_eq[OF dv nv se dvl])
  show s: "set (concat vl) = set (layers N)" using se sv by simp
  show "[] \<notin> set vl" using nv se by simp
  show "\<forall>v\<in>set vl. chain_ok N v" using cv se by simp
  show "precedes u w vl" if "(u, w) \<in> vertex_edges N (set vl)" for u w
    using ord that se by simp
  show "precedes p c (concat vl)" if e: "(p, c) \<in> layer_edges N" for p c
  proof -
    from e have pl: "p \<in> set (layers N)" and cl: "c \<in> set (layers N)"
      and pc: "Some p \<in> set (prev_layers N c)"
      by (simp_all add: layer_edges_def)
    from pl s obtain u where u: "u \<in> set vl" "p \<in> set u" by auto
    from cl s obtain w where w: "w \<in> set vl" "c \<in> set w" by auto
    have nx: "Some c \<in> set (next_layers N p)"
      using nc pl cl pc unfolding network_consistent_def by blast
    show ?thesis
    proof (cases "u = w")
      case False
      have "set u \<inter> set w = {}"
        by (rule vertices_disjoint[OF dv]) (use u w se False in simp_all)
      then have "c \<notin> set u" using w(2) by auto
      then have "vedge N u w" using u(2) w(2) nx unfolding vedge_def by blast
      then have "(u, w) \<in> vertex_edges N (set vs)" using u(1) w(1) se by (simp add: vertex_edges_def)
      from ord[OF this] show ?thesis by (rule precedes_concat[OF _ u(2) w(2)])
    next
      case True
      have cu: "chain_ok N u" "set u \<subseteq> set (layers N)" using props u(1) se by auto
      from u(2) obtain a where a: "a < length u" "u ! a = p" by (metis in_set_conv_nth)
      from w(2) True obtain b where b: "b < length u" "u ! b = c" by (metis in_set_conv_nth)
      have "a < b"
      proof (rule ccontr)
        assume "\<not> a < b"
        then consider "a = b" | "b < a" by linarith
        then have "(c, p) \<in> (layer_edges N)\<^sup>*"
        proof cases
          case 1
          then show ?thesis using a b by simp
        next
          case 2
          from chain_path[OF cu 2 a(1)] show ?thesis using a b by simp
        qed
        with e have "(p, p) \<in> (layer_edges N)\<^sup>+" by (rule rtrancl_into_trancl2)
        then show False using ac by (simp add: acyclic_def)
      qed
      then have "precedes p c u" unfolding precedes_def using a b by blast
      then show ?thesis by (rule precedes_concat_same[OF u(1)])
    qed
  qed
qed

lemma vertex_dict_layers_result:
  "vertex_dict_layers i v d = Inr d' \<Longrightarrow>
     (\<forall>l. d' l = (if l \<in> set v then Some i else d l)) \<and> set v \<inter> dom d = {}"
proof (induction v arbitrary: d)
  case Nil
  then show ?case by simp
next
  case (Cons x v)
  from Cons.prems have x: "d x = None" and r: "vertex_dict_layers i v (d(x \<mapsto> i)) = Inr d'"
    by (auto split: if_splits)
  note ih = Cons.IH[OF r]
  have a: "\<forall>l. d' l = (if l \<in> set v then Some i else (d(x \<mapsto> i)) l)"
    using ih by (rule conjunct1)
  have b: "set v \<inter> dom (d(x \<mapsto> i)) = {}"
    using ih by (rule conjunct2)
  have xv: "x \<notin> set v" and vd: "set v \<inter> dom d = {}" using b by auto
  have "d' l = (if l \<in> set (x # v) then Some i else d l)" for l
    using a xv by (cases "l = x") auto
  moreover have "set (x # v) \<inter> dom d = {}" using vd x by auto
  ultimately show ?case by blast
qed

lemma vertex_dict_vertices_result:
  "vertex_dict_vertices i vs d = Inr d' \<Longrightarrow>
     (\<forall>k<length vs. \<forall>l\<in>set (vs ! k). d' l = Some (i + int k))
     \<and> (\<forall>l. l \<notin> set (concat vs) \<longrightarrow> d' l = d l)
     \<and> set (concat vs) \<inter> dom d = {}"
proof (induction vs arbitrary: i d)
  case Nil
  then show ?case by simp
next
  case (Cons v vs)
  from Cons.prems obtain d1 where
    a: "vertex_dict_layers i v d = Inr d1" and b: "vertex_dict_vertices (i + 1) vs d1 = Inr d'"
    by (auto split: sum.splits)
  note l = vertex_dict_layers_result[OF a]
  have d1: "\<forall>l. d1 l = (if l \<in> set v then Some i else d l)" using l by (rule conjunct1)
  have dj: "set v \<inter> dom d = {}" using l by (rule conjunct2)
  note ih = Cons.IH[OF b]
  have r1: "\<forall>k<length vs. \<forall>l\<in>set (vs ! k). d' l = Some (i + 1 + int k)"
    using ih by (rule conjunct1)
  have r2: "\<forall>l. l \<notin> set (concat vs) \<longrightarrow> d' l = d1 l"
    using ih by (rule conjunct1[OF conjunct2])
  have r3: "set (concat vs) \<inter> dom d1 = {}"
    using ih by (rule conjunct2[OF conjunct2])
  have v_out: "set v \<inter> set (concat vs) = {}"
    using r3 d1 by (auto simp: dom_def)
  have 1: "\<forall>k<length (v # vs). \<forall>l\<in>set ((v # vs) ! k). d' l = Some (i + int k)"
  proof (intro allI impI ballI)
    fix k l assume k: "k < length (v # vs)" and l: "l \<in> set ((v # vs) ! k)"
    show "d' l = Some (i + int k)"
    proof (cases k)
      case 0
      then have lv: "l \<in> set v" using l by simp
      then have "l \<notin> set (concat vs)" using v_out by blast
      then have "d' l = d1 l" using r2 by blast
      also have "\<dots> = Some i" using d1 lv by simp
      finally show ?thesis using 0 by simp
    next
      case (Suc k')
      then show ?thesis using r1 k l by simp
    qed
  qed
  have 2: "\<forall>l. l \<notin> set (concat (v # vs)) \<longrightarrow> d' l = d l"
    using r2 d1 by simp
  have 3: "set (concat (v # vs)) \<inter> dom d = {}"
    using dj r3 d1 by (auto simp: dom_def split: if_splits)
  show ?case using 1 2 3 by blast
qed

definition prev_sources :: "('l \<rightharpoonup> int) \<Rightarrow> 'l option list \<Rightarrow> int set" where
  "prev_sources d pls =
     {pv. (None \<in> set pls \<and> pv = dag_input_vertex) \<or> (\<exists>p. Some p \<in> set pls \<and> d p = Some pv)}"

definition next_targets :: "('l \<rightharpoonup> int) \<Rightarrow> 'l option list \<Rightarrow> int set" where
  "next_targets d nls = {nv. \<exists>n. Some n \<in> set nls \<and> d n = Some nv}"

lemma prev_sources_Cons:
  "prev_sources d (None # rest) = insert dag_input_vertex (prev_sources d rest)"
  "d pl = Some pv \<Longrightarrow> prev_sources d (Some pl # rest) = insert pv (prev_sources d rest)"
  by (auto simp: prev_sources_def)

lemma next_targets_Cons:
  "next_targets d (None # rest) = next_targets d rest"
  "d nl = Some nv \<Longrightarrow> next_targets d (Some nl # rest) = insert nv (next_targets d rest)"
  by (auto simp: next_targets_def)

lemma add_prevs_result:
  "add_prevs d vidx pls prevd = Inr prevd' \<Longrightarrow> x \<in> set (prevd' i)
     \<Longrightarrow> x \<in> set (prevd i) \<or> (i = vidx \<and> x \<in> prev_sources d pls \<and> x \<noteq> vidx)"
proof (induction d vidx pls prevd rule: add_prevs.induct)
  case (1 d vidx prevd)
  then show ?case by simp
next
  case (2 d vidx rest prevd)
  let ?p1 = "if dag_input_vertex \<noteq> vidx
             then prevd(vidx := List.insert dag_input_vertex (prevd vidx)) else prevd"
  from "2.prems"(1) have r: "add_prevs d vidx rest ?p1 = Inr prevd'" by simp
  from "2.IH"[OF r "2.prems"(2)] consider
      "x \<in> set (?p1 i)" | "i = vidx \<and> x \<in> prev_sources d rest \<and> x \<noteq> vidx"
    by blast
  then show ?case
  proof cases
    case 1
    then have "x \<in> set (prevd i) \<or> (i = vidx \<and> x = dag_input_vertex \<and> x \<noteq> vidx)"
      by (auto split: if_splits)
    then show ?thesis by (auto simp: prev_sources_Cons)
  next
    case 2
    then show ?thesis by (simp add: prev_sources_Cons)
  qed
next
  case (3 d vidx pl rest prevd)
  from "3.prems"(1) obtain pvidx where p: "d pl = Some pvidx"
    by (auto split: option.splits)
  let ?p1 = "if pvidx \<noteq> vidx then prevd(vidx := List.insert pvidx (prevd vidx)) else prevd"
  from "3.prems"(1) p have r: "add_prevs d vidx rest ?p1 = Inr prevd'" by simp
  from "3.IH"[OF p r "3.prems"(2)] consider
      "x \<in> set (?p1 i)" | "i = vidx \<and> x \<in> prev_sources d rest \<and> x \<noteq> vidx"
    by blast
  then show ?case
  proof cases
    case 1
    then have "x \<in> set (prevd i) \<or> (i = vidx \<and> x = pvidx \<and> x \<noteq> vidx)"
      by (auto split: if_splits)
    then show ?thesis by (auto simp: prev_sources_Cons(2)[of d pl pvidx, OF p])
  next
    case 2
    then show ?thesis by (simp add: prev_sources_Cons(2)[of d pl pvidx, OF p])
  qed
qed

lemma add_nexts_result:
  "add_nexts d vidx nls nextd = Inr nextd' \<Longrightarrow> x \<in> set (nextd' i)
     \<Longrightarrow> x \<in> set (nextd i) \<or> (i = vidx \<and> x \<in> next_targets d nls \<and> x \<noteq> vidx)"
proof (induction d vidx nls nextd rule: add_nexts.induct)
  case (1 d vidx nextd)
  then show ?case by simp
next
  case (2 d vidx rest nextd)
  from "2.prems"(1) have r: "add_nexts d vidx rest nextd = Inr nextd'" by simp
  from "2.IH"[OF r "2.prems"(2)] show ?case by (simp add: next_targets_Cons)
next
  case (3 d vidx nl rest nextd)
  from "3.prems"(1) obtain nvidx where p: "d nl = Some nvidx"
    by (auto split: option.splits)
  let ?n1 = "if nvidx \<noteq> vidx then nextd(vidx := List.insert nvidx (nextd vidx)) else nextd"
  from "3.prems"(1) p have r: "add_nexts d vidx rest ?n1 = Inr nextd'" by simp
  from "3.IH"[OF p r "3.prems"(2)] consider
      "x \<in> set (?n1 i)" | "i = vidx \<and> x \<in> next_targets d rest \<and> x \<noteq> vidx"
    by blast
  then show ?case
  proof cases
    case 1
    then have "x \<in> set (nextd i) \<or> (i = vidx \<and> x = nvidx \<and> x \<noteq> vidx)"
      by (auto split: if_splits)
    then show ?thesis by (auto simp: next_targets_Cons(2)[of d nl nvidx, OF p])
  next
    case 2
    then show ?thesis by (simp add: next_targets_Cons(2)[of d nl nvidx, OF p])
  qed
qed

lemma adjacency_result:
  assumes "adjacency N d ls (prevd, nextd) = Inr (prevd', nextd')"
  shows "x \<in> set (prevd' i) \<Longrightarrow>
           x \<in> set (prevd i)
           \<or> (x \<noteq> i \<and> (\<exists>l\<in>set ls. d l = Some i \<and> x \<in> prev_sources d (prev_layers N l)))"
    and "y \<in> set (nextd' i) \<Longrightarrow>
           y \<in> set (nextd i)
           \<or> (y \<noteq> i \<and> (\<exists>l\<in>set ls. d l = Some i \<and> y \<in> next_targets d (next_layers N l)))"
  using assms
proof (induction ls arbitrary: prevd nextd)
  case Nil
  { case 1 then show ?case by simp }
  { case 2 then show ?case by simp }
next
  case (Cons l ls)
  { case 1
    from "1.prems"(2) obtain vidx prevd1 nextd1 where
      v: "d l = Some vidx"
      and p: "add_prevs d vidx (prev_layers N l) prevd = Inr prevd1"
      and r: "adjacency N d ls (prevd1, nextd1) = Inr (prevd', nextd')"
      by (auto split: option.splits sum.splits)
    from Cons.IH(1)[OF "1.prems"(1) r] consider
        "x \<in> set (prevd1 i)"
      | "x \<noteq> i \<and> (\<exists>l\<in>set ls. d l = Some i \<and> x \<in> prev_sources d (prev_layers N l))"
      by blast
    then show ?case
    proof cases
      case 1
      from add_prevs_result[OF p 1] v show ?thesis by auto
    next
      case 2
      then show ?thesis by auto
    qed }
  { case 2
    from "2.prems"(2) obtain vidx prevd1 nextd1 where
      v: "d l = Some vidx"
      and n: "add_nexts d vidx (next_layers N l) nextd = Inr nextd1"
      and r: "adjacency N d ls (prevd1, nextd1) = Inr (prevd', nextd')"
      by (auto split: option.splits sum.splits)
    from Cons.IH(2)[OF "2.prems"(1) r] consider
        "y \<in> set (nextd1 i)"
      | "y \<noteq> i \<and> (\<exists>l\<in>set ls. d l = Some i \<and> y \<in> next_targets d (next_layers N l))"
      by blast
    then show ?case
    proof cases
      case 1
      from add_nexts_result[OF n 1] v show ?thesis by auto
    next
      case 2
      then show ?thesis by auto
    qed }
qed

lemma distinct_concat_distinct: "distinct (concat xs) \<Longrightarrow> [] \<notin> set xs \<Longrightarrow> distinct xs"
  by (simp add: distinct_concat_iff)

lemma init_parts:
  assumes "init (Network_Instance N) b (Resource_Instance R) m = Inr P"
  obtains vs d nextd where
    "merge_layers N (layers N) [] = Inr vs"
    "topological_order N vs = Inr (dag_vertex_list P)"
    "vertex_dict_vertices 0 (dag_vertex_list P) Map.empty = Inr d"
    "adjacency N d (layers N) (\<lambda>vidx. [], \<lambda>vidx. []) = Inr (dag_prev_dict P, nextd)"
    "dag_next_dict P = nextd(dag_input_vertex :=
        filter (\<lambda>vidx. dag_input_vertex \<in> set (dag_prev_dict P vidx))
               (map int [0 ..< length (dag_vertex_list P)]))"
    "network P = N"
  using assms unfolding init_def calc_sched_dag_def
  by (auto split: sum.splits if_splits prod.splits)

lemma init_invariants:
  assumes i: "init (Network_Instance N) b (Resource_Instance R) m = Inr P"
    and nc: "network_consistent N" and ac: "acyclic (layer_edges N)"
  shows "next_increasing P" "prev_decreasing P" "distinct (concat (dag_vertex_list P))"
    "[] \<notin> set (dag_vertex_list P)" "distinct (layers (network P))" "network P = N"
proof -
  let ?vl = "dag_vertex_list P"
  from init_parts[OF i] obtain vs d nextd where
    m: "merge_layers N (layers N) [] = Inr vs"
    and t: "topological_order N vs = Inr ?vl"
    and vd: "vertex_dict_vertices 0 ?vl Map.empty = Inr d"
    and adj: "adjacency N d (layers N) (\<lambda>vidx. [], \<lambda>vidx. []) = Inr (dag_prev_dict P, nextd)"
    and nx: "dag_next_dict P = nextd(dag_input_vertex :=
        filter (\<lambda>vidx. dag_input_vertex \<in> set (dag_prev_dict P vidx))
               (map int [0 ..< length ?vl]))"
    and net: "network P = N"
    by blast
  note dv = dag_vertices_correct[OF m t nc ac]
  show dc: "distinct (concat ?vl)" by (rule dv(1))
  show ne: "[] \<notin> set ?vl" by (rule dv(3))
  show "network P = N" by (rule net)
  show "distinct (layers (network P))" using nc net by (simp add: network_consistent_def)
  have dvl: "distinct ?vl" by (rule distinct_concat_distinct[OF dc ne])
  note vr = vertex_dict_vertices_result[OF vd]
  have d_in: "\<forall>k<length ?vl. \<forall>l\<in>set (?vl ! k). d l = Some (int k)"
    using vr by simp
  have d_out: "\<forall>l. l \<notin> set (concat ?vl) \<longrightarrow> d l = None"
    using vr by simp
  have d_some: "\<exists>k<length ?vl. a = int k \<and> l \<in> set (?vl ! k)" if "d l = Some a" for l a
  proof -
    have "l \<in> set (concat ?vl)" using d_out that by force
    then obtain v where v: "v \<in> set ?vl" "l \<in> set v" by auto
    then obtain k where k: "k < length ?vl" "?vl ! k = v" by (metis in_set_conv_nth)
    then have "d l = Some (int k)" using d_in v(2) by blast
    then show ?thesis using that k v(2) by auto
  qed
  have lt: "a < c" if p: "d p = Some a" and l: "d l = Some c"
    and e: "Some l \<in> set (next_layers N p)" and neq: "a \<noteq> c" for p l a c
  proof -
    from d_some[OF p] obtain ka where ka: "ka < length ?vl" "a = int ka" "p \<in> set (?vl ! ka)"
      by blast
    from d_some[OF l] obtain kc where kc: "kc < length ?vl" "c = int kc" "l \<in> set (?vl ! kc)"
      by blast
    have kne: "ka \<noteq> kc" using neq ka(2) kc(2) by simp
    then have vne: "?vl ! ka \<noteq> ?vl ! kc"
      using dvl ka(1) kc(1) by (simp add: nth_eq_iff_index_eq)
    have "set (?vl ! ka) \<inter> set (?vl ! kc) = {}"
      by (rule vertices_disjoint[OF dc]) (use ka(1) kc(1) vne in simp_all)
    then have "l \<notin> set (?vl ! ka)" using kc(3) by blast
    then have "vedge N (?vl ! ka) (?vl ! kc)"
      unfolding vedge_def using ka(3) kc(3) e by blast
    then have "(?vl ! ka, ?vl ! kc) \<in> vertex_edges N (set ?vl)"
      using ka(1) kc(1) by (simp add: vertex_edges_def)
    from dv(5)[OF this] obtain i j where
      ij: "i < j" "j < length ?vl" "?vl ! i = ?vl ! ka" "?vl ! j = ?vl ! kc"
      unfolding precedes_def by blast
    have "i = ka" using ij(1-3) ka(1) dvl by (simp add: nth_eq_iff_index_eq)
    moreover have "j = kc" using ij(2,4) kc(1) dvl by (simp add: nth_eq_iff_index_eq)
    ultimately show ?thesis using ij(1) ka(2) kc(2) by simp
  qed
  show "prev_decreasing P"
    unfolding prev_decreasing_def
  proof (intro allI ballI)
    fix i x assume "x \<in> set (dag_prev_dict P i)"
    from adjacency_result(1)[OF adj this] obtain l where
      l: "x \<noteq> i" "l \<in> set (layers N)" "d l = Some i" "x \<in> prev_sources d (prev_layers N l)"
      by auto
    from d_some[OF l(3)] have i0: "0 \<le> i" by auto
    from l(4) consider "x = dag_input_vertex"
      | q where "Some q \<in> set (prev_layers N l)" "d q = Some x"
      unfolding prev_sources_def by blast
    then show "x < i"
    proof cases
      case 1
      then show ?thesis using i0 by (simp add: dag_input_vertex_def)
    next
      case 2
      have "q \<in> set (layers N)" using d_some[OF 2(2)] dv(2) by auto
      then have "Some l \<in> set (next_layers N q)"
        using nc l(2) 2(1) unfolding network_consistent_def by blast
      from lt[OF 2(2) l(3) this l(1)] show ?thesis .
    qed
  qed
  show "next_increasing P"
    unfolding next_increasing_def
  proof (intro allI ballI)
    fix i y assume y: "y \<in> set (dag_next_dict P i)"
    show "i < y"
    proof (cases "i = dag_input_vertex")
      case True
      then have "0 \<le> y" using y nx by auto
      then show ?thesis using True by (simp add: dag_input_vertex_def)
    next
      case False
      then have "y \<in> set (nextd i)" using y nx by simp
      from adjacency_result(2)[OF adj this] obtain l n where
        l: "y \<noteq> i" "d l = Some i" "Some n \<in> set (next_layers N l)" "d n = Some y"
        unfolding next_targets_def by auto
      from lt[OF l(2) l(4) l(3)] l(1) show ?thesis by simp
    qed
  qed
qed

text \<open>
  Claim C3. For a network whose layer names are distinct, whose \<^verbatim>\<open>next_layers\<close> is the
  converse of its \<^verbatim>\<open>prev_layers\<close> on the layers, and whose layer graph is acyclic: when
  the constructor accepts it, \<^verbatim>\<open>ordered_layer_list\<close> holds every layer of the network
  exactly once, and every layer stands before the layers it is a previous layer of.
\<close>

theorem ordered_layer_list_topological:
  assumes "init (Network_Instance N) b (Resource_Instance R) m = Inr P"
    and "network_consistent N" and "acyclic (layer_edges N)"
  shows "distinct (ordered_layer_list P) \<and> set (ordered_layer_list P) = set (layers N)
         \<and> length (ordered_layer_list P) = length (layers N)
         \<and> (\<forall>p c. (p, c) \<in> layer_edges N \<longrightarrow> precedes p c (ordered_layer_list P))"
proof -
  from assms(1) obtain vs where
    m: "merge_layers N (layers N) [] = Inr vs" and t: "topological_order N vs = Inr (dag_vertex_list P)"
    unfolding init_def calc_sched_dag_def
    by (auto split: sum.splits if_splits prod.splits)
  note d = dag_vertices_correct[OF m t assms(2,3)]
  have "distinct (layers N)" using assms(2) by (simp add: network_consistent_def)
  then have "length (concat (dag_vertex_list P)) = length (layers N)"
    using d(1,2) by (metis distinct_card)
  then show ?thesis
    unfolding ordered_layer_list_def using d(1,2,6) by blast
qed

lemma example_network_consistent: "network_consistent example_network"
  by (auto simp: network_consistent_def example_network_def)

lemma example_network_acyclic: "acyclic (layer_edges example_network)"
proof (rule acyclicI_order)
  fix a b assume "(a, b) \<in> layer_edges example_network"
  then show "(if b = ''A'' then 3 else if b = ''B'' then 2 else if b = ''F'' then 1 else (0::nat))
             < (if a = ''A'' then 3 else if a = ''B'' then 2 else if a = ''F'' then 1 else 0)"
    by (auto simp: layer_edges_def example_network_def split: if_splits)
qed

lemma fan_network_consistent: "network_consistent fan_network"
  by (auto simp: network_consistent_def fan_network_def)

lemma fan_network_acyclic: "acyclic (layer_edges fan_network)"
proof (rule acyclicI_order)
  fix a b assume "(a, b) \<in> layer_edges fan_network"
  then show "(if b = ''A'' then 1 else (0::nat)) < (if a = ''A'' then 1 else 0)"
    by (auto simp: layer_edges_def fan_network_def split: if_splits)
qed


theorem ordered_layer_list_topological_witness:
  "init (Network_Instance example_network) 1 (Resource_Instance ()) (1 / 20) = Inr example_pipeline
   \<and> network_consistent example_network \<and> acyclic (layer_edges example_network)
   \<and> ordered_layer_list example_pipeline = [''A'', ''B'', ''F'', ''C'']
   \<and> distinct (ordered_layer_list example_pipeline)
   \<and> precedes ''B'' ''F'' (ordered_layer_list example_pipeline)"
proof -
  have e: "(''B'', ''F'') \<in> layer_edges example_network"
    by (simp add: layer_edges_def example_network_def)
  have l: "ordered_layer_list example_pipeline = [''A'', ''B'', ''F'', ''C'']"
    by (simp add: ordered_layer_list_def example_pipeline_def)
  from ordered_layer_list_topological[OF example_pipeline_init example_network_consistent
         example_network_acyclic] e
  have "distinct (ordered_layer_list example_pipeline)"
    and "precedes ''B'' ''F'' (ordered_layer_list example_pipeline)"
    by blast+
  then show ?thesis
    using example_pipeline_init example_network_consistent example_network_acyclic l by simp
qed

section \<open>The enumerator and the generator on a constructed pipeline\<close>

text \<open>
  Claim C2. On a pipeline that the constructor has built for a consistent, acyclic
  network, every vertex segment that \<^verbatim>\<open>_gen_vseg\<close> yields satisfies the three rules with
  respect to the adjacency in \<^verbatim>\<open>dag_prev_dict\<close> and \<^verbatim>\<open>dag_next_dict\<close>: rule 1 for every
  vertex after the first against the members added before it, rule 2 for every member,
  and rule 3 for every member.
\<close>

theorem gen_vseg_rules:
  assumes "init (Network_Instance N) b (Resource_Instance R) m = Inr P"
    and "network_consistent N" and "acyclic (layer_edges N)"
    and "vs \<in> set (fst (gen_vseg P i dn memo))"
  shows "rule1 P vs \<and> rule2 P vs \<and> rule3 P vs"
  by (rule gen_vseg_rules_dag[OF assms(4) init_invariants(2)[OF assms(1-3)]])

theorem gen_vseg_rules_witness:
  "init (Network_Instance example_network) 1 (Resource_Instance ()) (1 / 20) = Inr example_pipeline
   \<and> [0, 1, 2] \<in> set (fst (gen_vseg example_pipeline 0 {} {}))
   \<and> rule1 example_pipeline [0, 1, 2] \<and> rule2 example_pipeline [0, 1, 2]
   \<and> rule3 example_pipeline [0, 1, 2]"
proof -
  have h: "[0, 1, 2] \<in> set (fst (gen_vseg example_pipeline 0 {} {}))"
    by (simp add: example_gen_vseg)
  from gen_vseg_rules[OF example_pipeline_init example_network_consistent
         example_network_acyclic h] h example_pipeline_init
  show ?thesis by simp
qed

lemma fan_rules_gap:
  "rule1 fan_pipeline [1, 3]" "rule2 fan_pipeline [1, 3]" "rule3 fan_pipeline [1, 3]"
  by (auto simp: rule1_def rule2_def rule3_def fan_pipeline_def less_Suc_eq numeral_2_eq_2)

text \<open>
  Claim C1, as the code has it. On a pipeline that the constructor has built for a
  consistent, acyclic network, one pass of \<^verbatim>\<open>_gen_vseg\<close> from vertex 0, whatever
  \<^verbatim>\<open>seg_vertex_done\<close> held before, ends without an exception and has yielded, each exactly
  once, the runs \<open>[s..e]\<close> of consecutive vertex indices,
  \<open>0 \<le> s \<le> e < len(dag_vertex_list)\<close>, that satisfy rule 1, rule 2 and rule 3, and nothing
  else. A segment grows by the next vertex index only, so a strictly increasing tuple of
  vertex indices that leaves an index out is never yielded, whether or not it satisfies
  the three rules.
\<close>


theorem gen_vseg_complete_distinct:
  assumes "init (Network_Instance N) b (Resource_Instance R) m = Inr P"
    and "network_consistent N" and "acyclic (layer_edges N)"
  shows "\<exists>ys memo'. gen_vseg P 0 {} memo = (ys, memo', None) \<and> distinct ys
           \<and> set ys = {vs. (\<exists>s e. 0 \<le> s \<and> s \<le> e \<and> e < int (length (dag_vertex_list P)) \<and> vs = [s..e])
                            \<and> rule1 P vs \<and> rule2 P vs \<and> rule3 P vs}"
  by (rule gen_vseg_complete_distinct_dag[OF init_invariants(1,2)[OF assms]])

theorem gen_vseg_complete_distinct_witness:
  "init (Network_Instance fan_network) 1 (Resource_Instance ()) (1 / 20) = Inr fan_pipeline
   \<and> fst (gen_vseg fan_pipeline 0 {} {})
       = [[0], [1], [2], [3], [2, 3], [1, 2], [1, 2, 3], [0, 1, 2, 3]]
   \<and> distinct (fst (gen_vseg fan_pipeline 0 {} {}))
   \<and> set (fst (gen_vseg fan_pipeline 0 {} {}))
       = {vs. (\<exists>s e. 0 \<le> s \<and> s \<le> e \<and> e < int (length (dag_vertex_list fan_pipeline))
                     \<and> vs = [s..e])
              \<and> rule1 fan_pipeline vs \<and> rule2 fan_pipeline vs \<and> rule3 fan_pipeline vs}"
proof -
  from gen_vseg_complete_distinct[OF fan_pipeline_init fan_network_consistent
         fan_network_acyclic, of "{}"]
  obtain ys memo' where
    "gen_vseg fan_pipeline 0 {} {} = (ys, memo', None)" "distinct ys"
    "set ys = {vs. (\<exists>s e. 0 \<le> s \<and> s \<le> e \<and> e < int (length (dag_vertex_list fan_pipeline))
                         \<and> vs = [s..e])
                  \<and> rule1 fan_pipeline vs \<and> rule2 fan_pipeline vs \<and> rule3 fan_pipeline vs}"
    by blast
  then show ?thesis
    using fan_pipeline_init fan_gen_vseg by simp
qed

text \<open>
  Claim C1 as stated fails: on the pipeline that the constructor builds for the fan-out
  network, the strictly increasing tuple \<open>(1, 3)\<close> of the vertices of \<open>B\<close> and \<open>D\<close>
  satisfies rule 1 (both have the previous vertex 0), rule 2 (neither has more than one
  previous vertex) and rule 3 (neither has a next vertex), and the pass from vertex 0
  does not yield it.
\<close>

theorem gen_vseg_gap_counterexample:
  "init (Network_Instance fan_network) 1 (Resource_Instance ()) (1 / 20) = Inr fan_pipeline
   \<and> sorted_wrt (<) [1, 3 :: int]
   \<and> rule1 fan_pipeline [1, 3] \<and> rule2 fan_pipeline [1, 3] \<and> rule3 fan_pipeline [1, 3]
   \<and> [1, 3] \<notin> set (fst (gen_vseg fan_pipeline 0 {} {}))"
  using fan_pipeline_init fan_rules_gap by (simp add: fan_gen_vseg)


text \<open>
  Claim C4, as the code has it. Within one call of \<^verbatim>\<open>gen_segment\<close> on a pipeline that
  the constructor has built for a consistent, acyclic network, what is yielded is a list
  of segments of single layers followed by a list of candidates of vertex segments; no
  segment occurs twice in the first list and none occurs twice in the second. The set
  \<^verbatim>\<open>seg_cands\<close> removes a duplicate among the candidates of one vertex segment only, and
  nothing compares a candidate with the segments of the single layers.
\<close>

theorem gen_segment_distinct_within_phases:
  assumes "init (Network_Instance N) b (Resource_Instance R) m = Inr P"
    and "network_consistent N" and "acyclic (layer_edges N)"
  shows "\<exists>singles cands. fst (gen_segment V P opts) = singles @ cands
           \<and> distinct singles \<and> distinct cands
           \<and> (\<exists>n\<le>length (layers (network P)).
                 singles = map (\<lambda>l. [[l]]) (take n (layers (network P))))
           \<and> cands = (if snd (gen_single_layers V P (layers (network P))) = None
                      then concat (map (\<lambda>vseg. filter (segment_valid V P) (seg_cands P opts vseg))
                                       (fst (gen_vseg P 0 {} (seg_vertex_done P))))
                      else [])"
  by (rule gen_segment_distinct_within_phases_dag[OF init_invariants(1,3,4,5)[OF assms]])

theorem gen_segment_distinct_within_phases_witness:
  "init (Network_Instance example_network) 1 (Resource_Instance ()) (1 / 20) = Inr example_pipeline
   \<and> (\<exists>singles cands.
        fst (gen_segment accept_all example_pipeline
              \<lparr>partition_interlayer = True, hw_gbuf_save_writeback = True\<rparr>) = singles @ cands
        \<and> distinct singles \<and> distinct cands
        \<and> singles = [[[''A'']], [[''B'']], [[''F'']], [[''C'']]])"
proof -
  have v: "gen_single_layers accept_all example_pipeline (layers (network example_pipeline))
             = ([[[''A'']], [[''B'']], [[''F'']], [[''C'']]], None)"
    by (simp add: example_pipeline_def example_network_def segment_valid_def accept_all_def)
  from gen_segment_distinct_within_phases[OF example_pipeline_init example_network_consistent
         example_network_acyclic,
         of accept_all "\<lparr>partition_interlayer = True, hw_gbuf_save_writeback = True\<rparr>"]
  obtain singles cands where
    a: "fst (gen_segment accept_all example_pipeline
              \<lparr>partition_interlayer = True, hw_gbuf_save_writeback = True\<rparr>) = singles @ cands"
       "distinct singles" "distinct cands"
    and c: "cands = concat (map (\<lambda>vseg. filter (segment_valid accept_all example_pipeline)
                     (seg_cands example_pipeline
                        \<lparr>partition_interlayer = True, hw_gbuf_save_writeback = True\<rparr> vseg))
                  (fst (gen_vseg example_pipeline 0 {} (seg_vertex_done example_pipeline))))"
    unfolding v by auto
  have "fst (gen_segment accept_all example_pipeline
              \<lparr>partition_interlayer = True, hw_gbuf_save_writeback = True\<rparr>)
          = [[[''A'']], [[''B'']], [[''F'']], [[''C'']]] @ cands"
    unfolding c by (simp add: gen_segment_def v split: prod.splits)
  with a(3) example_pipeline_init show ?thesis
    by (intro conjI exI[of _ "[[[''A'']], [[''B'']], [[''F'']], [[''C'']]]"] exI[of _ cands]) simp_all
qed

text \<open>
  Claim C4 as stated fails: with spatial pipelining on, the segment of the single layer
  \<open>A\<close> is yielded by the first loop and again as the candidate of the vertex segment of
  the vertex \<open>(A,)\<close>. The pipeline is the one that the constructor builds for the example
  network.
\<close>

theorem gen_segment_duplicate_counterexample:
  "init (Network_Instance example_network) 1 (Resource_Instance ()) (1 / 20) = Inr example_pipeline
   \<and> \<not> distinct (fst (gen_segment accept_all example_pipeline
                        \<lparr>partition_interlayer = True, hw_gbuf_save_writeback = False\<rparr>))
   \<and> count_list (fst (gen_segment accept_all example_pipeline
                        \<lparr>partition_interlayer = True, hw_gbuf_save_writeback = False\<rparr>))
                [[''A'']] = 2"
proof -
  have "\<not> distinct (fst (gen_segment accept_all example_pipeline
                        \<lparr>partition_interlayer = True, hw_gbuf_save_writeback = False\<rparr>))
        \<and> count_list (fst (gen_segment accept_all example_pipeline
                        \<lparr>partition_interlayer = True, hw_gbuf_save_writeback = False\<rparr>))
                [[''A'']] = 2"
    by code_simp
  with example_pipeline_init show ?thesis by simp
qed

end
